theory Spec2Isabelle
  imports Main "HOL-Library.Char_ord" "HOL-Library.List_Lexorder"
begin

section \<open>The NED resource cache of nedxml (nedresourcecache.cc)\<close>

text \<open>
  A shallow embedding of \<^verbatim>\<open>NedResourceCache\<close>. The object's fields are a record that
  every member function takes and returns; an exception is the left summand of the
  result, returned together with the state the object is left in. Collaborators that are
  not part of nedresourcecache.cc (parser, validators, pattern matcher, file system,
  path canonicalisation) are fields of an environment record.
\<close>

subsection \<open>Strings\<close>

definition opp_stringendswith :: "string \<Rightarrow> string \<Rightarrow> bool" where
  "opp_stringendswith s ending =
     (length ending \<le> length s \<and> drop (length s - length ending) s = ending)"

definition opp_stringbeginswith :: "string \<Rightarrow> string \<Rightarrow> bool" where
  "opp_stringbeginswith s pfx = (take (length pfx) s = pfx)"

text \<open>\<^verbatim>\<open>strchr(s, '.') != nullptr\<close>\<close>

definition hasDot :: "string \<Rightarrow> bool" where
  "hasDot s = (CHR ''.'' \<in> set s)"

text \<open>\<^verbatim>\<open>s.substr(0, s.rfind('.'))\<close>, used where \<open>s\<close> has a dot.\<close>

definition beforeLastDot :: "string \<Rightarrow> string" where
  "beforeLastDot s = rev (tl (dropWhile (\<lambda>ch. ch \<noteq> CHR ''.'') (rev s)))"

text \<open>
  Modelled from the spec: \<^verbatim>\<open>opp_join(sep, a, b)\<close> of common/stringutil is not in
  nedresourcecache.cc. The spec gives the expected package of a child directory as
  \<open>P.<childname>\<close>, or \<open><childname>\<close> if \<open>P\<close> is empty, and the package of a source
  folder itself as its root package: an empty side is left out together with the separator.
\<close>

definition opp_join :: "string \<Rightarrow> string \<Rightarrow> string \<Rightarrow> string" where
  "opp_join sep a b = (if a = [] then b else if b = [] then a else a @ sep @ b)"

text \<open>\<^verbatim>\<open>opp_replacesubstring(s, "/", ".", true)\<close>: every slash becomes a dot.\<close>

definition slashesToDots :: "string \<Rightarrow> string" where
  "slashesToDots s = map (\<lambda>ch. if ch = CHR ''/'' then CHR ''.'' else ch) s"

subsection \<open>std::map keyed by std::string\<close>

text \<open>
  The file index, the package-marker index, the type index and the folder map are used
  through the interface of \<^verbatim>\<open>std::map\<close> (\<^verbatim>\<open>operator[]\<close>, \<^verbatim>\<open>find\<close>,
  \<^verbatim>\<open>end\<close>, \<^verbatim>\<open>at\<close>, iteration over key/value pairs, \<^verbatim>\<open>containsKey\<close>).
  A \<^verbatim>\<open>std::map\<close> from \<^verbatim>\<open>std::string\<close> holds one value per key and iterates in ascending
  key order, \<^verbatim>\<open>std::string\<close> being compared bytewise and lexicographically. It is an
  association list kept strictly ascending in its keys; the list is the iteration order.
\<close>

type_synonym 'v stdmap = "(string \<times> 'v) list"

definition map_find :: "'v stdmap \<Rightarrow> string \<Rightarrow> 'v option" where
  "map_find m k = map_of m k"

definition containsKey :: "'v stdmap \<Rightarrow> string \<Rightarrow> bool" where
  "containsKey m k = (map_find m k \<noteq> None)"

text \<open>\<^verbatim>\<open>m[k] = v\<close>\<close>

fun map_assign :: "string \<Rightarrow> 'v \<Rightarrow> 'v stdmap \<Rightarrow> 'v stdmap" where
  "map_assign k v [] = [(k, v)]"
| "map_assign k v ((k', v') # m) =
     (if k < k' then (k, v) # (k', v') # m
      else if k = k' then (k, v) # m
      else (k', v') # map_assign k v m)"

definition map_keys :: "'v stdmap \<Rightarrow> string list" where
  "map_keys m = map fst m"

text \<open>The representation invariant of a \<^verbatim>\<open>std::map\<close>.\<close>

definition map_ok :: "'v stdmap \<Rightarrow> bool" where
  "map_ok m = sorted_wrt (<) (map_keys m)"

subsection \<open>Syntax trees\<close>

datatype tag =
    NED_NED_FILE | NED_PACKAGE | NED_IMPORT | NED_EXTENDS | NED_INTERFACE_NAME
  | NED_SIMPLE_MODULE | NED_MODULE_INTERFACE | NED_COMPOUND_MODULE
  | NED_CHANNEL_INTERFACE | NED_CHANNEL | NED_TYPES
  | NED_OTHER string

fun getTagNameOf :: "tag \<Rightarrow> string" where
  "getTagNameOf NED_NED_FILE = ''ned-file''"
| "getTagNameOf NED_PACKAGE = ''package''"
| "getTagNameOf NED_IMPORT = ''import''"
| "getTagNameOf NED_EXTENDS = ''extends''"
| "getTagNameOf NED_INTERFACE_NAME = ''interface-name''"
| "getTagNameOf NED_SIMPLE_MODULE = ''simple-module''"
| "getTagNameOf NED_MODULE_INTERFACE = ''module-interface''"
| "getTagNameOf NED_COMPOUND_MODULE = ''compound-module''"
| "getTagNameOf NED_CHANNEL_INTERFACE = ''channel-interface''"
| "getTagNameOf NED_CHANNEL = ''channel''"
| "getTagNameOf NED_TYPES = ''types''"
| "getTagNameOf (NED_OTHER nm) = nm"

datatype ast = ASTNode (tagCode: tag) (attrs: "(string \<times> string) list") (children: "ast list")

definition getTagName :: "ast \<Rightarrow> string" where
  "getTagName n = getTagNameOf (tagCode n)"

text \<open>An attribute the element does not carry reads as the empty string.\<close>

definition getAttribute :: "ast \<Rightarrow> string \<Rightarrow> string" where
  "getAttribute n a = (case map_of (attrs n) a of Some v \<Rightarrow> v | None \<Rightarrow> [])"

definition getName :: "ast \<Rightarrow> string" where
  "getName n = getAttribute n ''name''"

definition getImportSpec :: "ast \<Rightarrow> string" where
  "getImportSpec n = getAttribute n ''import-spec''"

definition getFilename :: "ast \<Rightarrow> string" where
  "getFilename n = getAttribute n ''filename''"

definition getFirstChildWithTag :: "ast \<Rightarrow> tag \<Rightarrow> ast option" where
  "getFirstChildWithTag n t = find (\<lambda>ch. tagCode ch = t) (children n)"

text \<open>
  A pointer to a node inside a tree is the node followed by its ancestors, the parent
  first and the root last; \<open>[]\<close> is \<^verbatim>\<open>nullptr\<close>. \<^verbatim>\<open>getParent()\<close> is the tail.
\<close>

type_synonym noderef = "ast list"

text \<open>
  Modelled from the spec: \<^verbatim>\<open>ASTNode::getParentWithTag\<close> is not in nedresourcecache.cc;
  the spec asks for the nearest ancestor with a tag. The search starts at the node
  itself: the lookup context of a top-level type is its file element, and the resolver
  finds the enclosing file of a context with this call.
\<close>

definition getParentWithTag :: "noderef \<Rightarrow> tag \<Rightarrow> noderef" where
  "getParentWithTag r t = dropWhile (\<lambda>n. tagCode n \<noteq> t) r"

subsection \<open>Errors\<close>

text \<open>
  \<^verbatim>\<open>NedException\<close> carries the element it was raised for, when one is given, and its
  message. \<^verbatim>\<open>Assert(x)\<close> raises when \<open>x\<close> is false (a build with assertions
  enabled). Calling through a null pointer is \<open>NullDereference\<close>; reading a character
  before the start of a string is \<open>OutOfBoundsRead\<close>.
\<close>

datatype error =
    NedException "ast option" string
  | AssertionFailure string
  | NullDereference
  | OutOfBoundsRead

subsection \<open>The cache\<close>

record NedTypeInfo =
  ti_qname :: string
  ti_isInnerType :: bool
  ti_node :: noderef

record PendingNedType =
  p_qname :: string
  p_isInnerType :: bool
  p_node :: noderef

record NedResourceCache =
  nedFiles :: "ast stdmap"
  packageDotNedFiles :: "ast stdmap"
  doneLoadingNedFilesCalled :: bool
  nedTypes :: "NedTypeInfo stdmap"
  nedTypeNames :: "string list"
  folderPackages :: "string stdmap"
  pendingList :: "PendingNedType list"

definition newCache :: NedResourceCache where
  "newCache = \<lparr>nedFiles = [], packageDotNedFiles = [], doneLoadingNedFilesCalled = False,
     nedTypes = [], nedTypeNames = [], folderPackages = [], pendingList = []\<rparr>"

definition lookup :: "NedResourceCache \<Rightarrow> string \<Rightarrow> NedTypeInfo option" where
  "lookup c qn = map_find (nedTypes c) qn"

text \<open>
  Modelled from the spec: the constructor of \<^verbatim>\<open>NedTypeInfo\<close> is not in
  nedresourcecache.cc; a type entry has a QName, an inner-type flag and a reference to its
  node.
\<close>

definition registerNedType :: "string \<Rightarrow> bool \<Rightarrow> noderef \<Rightarrow> NedResourceCache \<Rightarrow> NedResourceCache" where
  "registerNedType qn inner nd c =
     (let decl = \<lparr>ti_qname = qn, ti_isInnerType = inner, ti_node = nd\<rparr>
      in c\<lparr>nedTypes := map_assign qn decl (nedTypes c), nedTypeNames := []\<rparr>)"

text \<open>
  \<^verbatim>\<open>getTypeNames() const\<close> fills the \<^verbatim>\<open>mutable\<close> vector \<open>nedTypeNames\<close> when it is
  empty and the type index is not, and returns it.
\<close>

definition getTypeNames :: "NedResourceCache \<Rightarrow> string list \<times> NedResourceCache" where
  "getTypeNames c =
     (if nedTypeNames c = [] \<and> nedTypes c \<noteq> []
      then (let c' = c\<lparr>nedTypeNames := nedTypeNames c @ map fst (nedTypes c)\<rparr>
            in (nedTypeNames c', c'))
      else (nedTypeNames c, c))"

definition collectNedType :: "string \<Rightarrow> bool \<Rightarrow> noderef \<Rightarrow> NedResourceCache \<Rightarrow> NedResourceCache" where
  "collectNedType qn inner nd c =
     c\<lparr>pendingList := pendingList c @ [\<lparr>p_qname = qn, p_isInnerType = inner, p_node = nd\<rparr>]\<rparr>"

subsection \<open>Collaborators\<close>

datatype severity = SEVERITY_INFO | SEVERITY_WARNING | SEVERITY_ERROR

record message =
  errorSeverityCode :: severity
  errorText :: string
  errorLocation :: string

type_synonym ErrorStore = "message list"

text \<open>What a path names: a file, or a directory with its entries in the order the globber yields them.\<close>

datatype fsnode = RegularFile | Directory "(string \<times> fsnode) list"

text \<open>
  The functions nedresourcecache.cc calls and does not define, and the working directory
  of the process. \<open>tidyAbsolutePath cwd p\<close> is \<^verbatim>\<open>tidyFilename(toAbsolutePath(p), true)\<close>
  when the working directory is \<open>cwd\<close>; \<open>fileSystem\<close> maps a canonical path to what it
  names; the parsers return the tree and the messages they stored, and read a relative
  file name from the working directory of the public operation (the folder walk hands
  them absolute names only). \<open>opp_splitandtrim s\<close> is \<^verbatim>\<open>opp_splitandtrim(s, ";")\<close>;
  \<open>containsWildcards\<close> is \<^verbatim>\<open>PatternMatcher::containsWildcards\<close>, and
  \<open>patternMatches imp qname\<close> is \<^verbatim>\<open>PatternMatcher(imp, true, true, true).matches(qname)\<close>.
\<close>

record env =
  workingDirectory :: string
  tidyAbsolutePath :: "string \<Rightarrow> string \<Rightarrow> string"
  fileSystem :: "string \<Rightarrow> fsnode option"
  parseNedFile :: "string \<Rightarrow> ast \<times> ErrorStore"
  parseNedText :: "string \<Rightarrow> string \<Rightarrow> ast \<times> ErrorStore"
  parseXML :: "string \<Rightarrow> ast \<times> ErrorStore"
  dtdValidate :: "ast \<Rightarrow> ErrorStore"
  syntaxValidate :: "ast \<Rightarrow> ErrorStore"
  getBuiltInDeclarations :: string
  opp_splitandtrim :: "string \<Rightarrow> string list"
  opp_toupper :: "char \<Rightarrow> char"
  containsWildcards :: "string \<Rightarrow> bool"
  patternMatches :: "string \<Rightarrow> string \<Rightarrow> bool"

definition canonicalize :: "env \<Rightarrow> string \<Rightarrow> string" where
  "canonicalize E pathname = tidyAbsolutePath E (workingDirectory E) pathname"

text \<open>\<^verbatim>\<open>PushDir pushDir(folder)\<close>: the scope in which the working directory is \<open>folder\<close>.\<close>

definition pushDir :: "env \<Rightarrow> string \<Rightarrow> env" where
  "pushDir E folder = E\<lparr>workingDirectory := canonicalize E folder\<rparr>"

subsection \<open>resolveNedType\<close>

record NedLookupContext =
  lc_element :: noderef
  lc_qname :: string

text \<open>
  \<^verbatim>\<open>INedTypeNames\<close>: the membership test \<^verbatim>\<open>contains\<close>, and the enumeration
  \<^verbatim>\<open>size()\<close>, \<^verbatim>\<open>get(j)\<close> as the list it runs through.
\<close>

record INedTypeNames =
  contains :: "string \<Rightarrow> bool"
  names :: "string list"

text \<open>\<^verbatim>\<open>opp_stringendswith(s, dot_nedtypename) || strcmp(s, nedTypeName) == 0\<close>\<close>

definition nameMatches :: "string \<Rightarrow> string \<Rightarrow> bool" where
  "nameMatches s nedTypeName = (opp_stringendswith s (''.'' @ nedTypeName) \<or> s = nedTypeName)"

text \<open>Step (a), inner type: \<open>Inr (Some q)\<close> is \<^verbatim>\<open>return qname\<close>, \<open>Inr None\<close> falls through.\<close>

definition innerTypeStep :: "NedLookupContext \<Rightarrow> string \<Rightarrow> INedTypeNames \<Rightarrow> error + string option" where
  "innerTypeStep context nedTypeName qnames =
     (case lc_element context of
        [] \<Rightarrow> Inl NullDereference
      | el # up \<Rightarrow>
          if tagCode el \<noteq> NED_COMPOUND_MODULE then Inr None
          else if up = [] then Inl NullDereference
          else
            (let contextIsInnerType = (getParentWithTag up NED_COMPOUND_MODULE \<noteq> [])
             in if contextIsInnerType \<and> \<not> hasDot (lc_qname context)
                then Inl (AssertionFailure ''index != -1'')
                else
                  (let qname0 = (if contextIsInnerType then beforeLastDot (lc_qname context)
                                 else lc_qname context);
                       qname = qname0 @ ''.'' @ nedTypeName
                   in Inr (if contains qnames qname then Some qname else None))))"

definition getImports :: "ast \<Rightarrow> string list" where
  "getImports nedfileNode = map getImportSpec (filter (\<lambda>ch. tagCode ch = NED_IMPORT) (children nedfileNode))"

text \<open>Step (b), exactly imported type.\<close>

definition exactImportStep :: "string list \<Rightarrow> string \<Rightarrow> INedTypeNames \<Rightarrow> string option" where
  "exactImportStep imports nedTypeName qnames =
     find (\<lambda>imp. contains qnames imp \<and> nameMatches imp nedTypeName) imports"

text \<open>Step (c), from the same package.\<close>

definition samePackageStep :: "ast \<Rightarrow> string \<Rightarrow> INedTypeNames \<Rightarrow> string option" where
  "samePackageStep nedfileNode nedTypeName qnames =
     (let packageName = (case getFirstChildWithTag nedfileNode NED_PACKAGE of
                           Some packageNode \<Rightarrow> getName packageNode | None \<Rightarrow> []);
          qname = (if packageName = [] then nedTypeName else packageName @ ''.'' @ nedTypeName)
      in if contains qnames qname then Some qname else None)"

text \<open>Step (d), wildcard imports: for each import with wildcards, a scan of the enumeration.\<close>

fun wildcardStep :: "env \<Rightarrow> string list \<Rightarrow> string \<Rightarrow> INedTypeNames \<Rightarrow> string option" where
  "wildcardStep E [] nedTypeName qnames = None"
| "wildcardStep E (imp # imports) nedTypeName qnames =
     (if containsWildcards E imp
      then (case find (\<lambda>qname. nameMatches qname nedTypeName \<and> patternMatches E imp qname) (names qnames) of
              Some qname \<Rightarrow> Some qname
            | None \<Rightarrow> wildcardStep E imports nedTypeName qnames)
      else wildcardStep E imports nedTypeName qnames)"

definition resolveNedType :: "env \<Rightarrow> NedLookupContext \<Rightarrow> string \<Rightarrow> INedTypeNames \<Rightarrow> error + string" where
  "resolveNedType E context nedTypeName qnames =
     (if \<not> hasDot nedTypeName then
        (case innerTypeStep context nedTypeName qnames of
           Inl e \<Rightarrow> Inl e
         | Inr (Some qname) \<Rightarrow> Inr qname
         | Inr None \<Rightarrow>
             (case getParentWithTag (lc_element context) NED_NED_FILE of
                [] \<Rightarrow> Inl NullDereference
              | nedfileNode # _ \<Rightarrow>
                  (let imports = getImports nedfileNode
                   in case exactImportStep imports nedTypeName qnames of
                        Some imp \<Rightarrow> Inr imp
                      | None \<Rightarrow>
                          (case samePackageStep nedfileNode nedTypeName qnames of
                             Some qname \<Rightarrow> Inr qname
                           | None \<Rightarrow>
                               (case wildcardStep E imports nedTypeName qnames of
                                  Some qname \<Rightarrow> Inr qname
                                | None \<Rightarrow> Inr [])))))
      else if contains qnames nedTypeName then Inr nedTypeName
      else Inr [])"

text \<open>
  Whether a call of \<open>resolveNedType\<close> reaches \<^verbatim>\<open>qnames->size()\<close>: the name is simple,
  steps (a) to (c) return nothing, and some import has wildcards.
\<close>

definition reachesEnumeration :: "env \<Rightarrow> NedLookupContext \<Rightarrow> string \<Rightarrow> INedTypeNames \<Rightarrow> bool" where
  "reachesEnumeration E context nedTypeName qnames =
     (\<not> hasDot nedTypeName \<and> innerTypeStep context nedTypeName qnames = Inr None \<and>
      (case getParentWithTag (lc_element context) NED_NED_FILE of
         [] \<Rightarrow> False
       | nedfileNode # _ \<Rightarrow>
           exactImportStep (getImports nedfileNode) nedTypeName qnames = None \<and>
           samePackageStep nedfileNode nedTypeName qnames = None \<and>
           list_ex (containsWildcards E) (getImports nedfileNode)))"

text \<open>
  Modelled from the spec: the oracle the cache hands to the resolver
  (\<^verbatim>\<open>CachedTypeNames\<close>) and the two-argument \<open>resolveNedType\<close> that uses it are
  declared in nedresourcecache.h, which is not among the sources. The spec: membership
  test and indexed enumeration over the currently registered QNames, the enumeration
  being the \<open>typeNames()\<close> listing. A call that enumerates leaves the listing filled.
\<close>

definition CachedTypeNames :: "NedResourceCache \<Rightarrow> INedTypeNames" where
  "CachedTypeNames c = \<lparr>contains = (\<lambda>qn. lookup c qn \<noteq> None), names = fst (getTypeNames c)\<rparr>"

definition resolveNedTypeCached ::
  "env \<Rightarrow> NedLookupContext \<Rightarrow> string \<Rightarrow> NedResourceCache \<Rightarrow> (error + string) \<times> NedResourceCache" where
  "resolveNedTypeCached E context nedTypeName c =
     (resolveNedType E context nedTypeName (CachedTypeNames c),
      if reachesEnumeration E context nedTypeName (CachedTypeNames c) then snd (getTypeNames c) else c)"

subsection \<open>Collecting and registering types\<close>

definition getParentContextOf :: "string \<Rightarrow> noderef \<Rightarrow> error + NedLookupContext" where
  "getParentContextOf qn nd =
     (case nd of
        [] \<Rightarrow> Inl NullDereference
      | _ # contextNode \<Rightarrow>
          (case contextNode of
             [] \<Rightarrow> Inl NullDereference
           | p # up \<Rightarrow>
               Inr \<lparr>lc_element = (if tagCode p = NED_TYPES then up else contextNode),
                    lc_qname = (if hasDot qn then beforeLastDot qn else [])\<rparr>))"

text \<open>The loop of \<open>areDependenciesResolved\<close> over the children of the node.\<close>

fun dependenciesLoop ::
  "env \<Rightarrow> NedLookupContext \<Rightarrow> ast list \<Rightarrow> NedResourceCache \<Rightarrow> (error + bool) \<times> NedResourceCache" where
  "dependenciesLoop E context [] c = (Inr True, c)"
| "dependenciesLoop E context (child # rest) c =
     (if tagCode child \<noteq> NED_EXTENDS \<and> tagCode child \<noteq> NED_INTERFACE_NAME
      then dependenciesLoop E context rest c
      else (case resolveNedTypeCached E context (getAttribute child ''name'') c of
              (Inl e, c1) \<Rightarrow> (Inl e, c1)
            | (Inr qname, c1) \<Rightarrow>
                if qname = [] then (Inr False, c1) else dependenciesLoop E context rest c1))"

definition areDependenciesResolved ::
  "env \<Rightarrow> string \<Rightarrow> noderef \<Rightarrow> NedResourceCache \<Rightarrow> (error + bool) \<times> NedResourceCache" where
  "areDependenciesResolved E qn nd c =
     (case getParentContextOf qn nd of
        Inl e \<Rightarrow> (Inl e, c)
      | Inr context \<Rightarrow>
          (case nd of
             [] \<Rightarrow> (Inl NullDereference, c)
           | n # _ \<Rightarrow> dependenciesLoop E context (children n) c))"

definition sameTypes :: "NedResourceCache \<Rightarrow> NedResourceCache \<Rightarrow> bool" where
  "sameTypes c c1 = (c1\<lparr>nedTypeNames := []\<rparr> = c\<lparr>nedTypeNames := []\<rparr> \<and>
     fst (getTypeNames c1) = fst (getTypeNames c))"

lemma getTypeNames_idem: "getTypeNames (snd (getTypeNames c)) = (fst (getTypeNames c), snd (getTypeNames c))"
  by (auto simp: getTypeNames_def Let_def)

lemma sameTypes_refl: "sameTypes c c"
  by (simp add: sameTypes_def)

lemma sameTypes_trans: "sameTypes c c1 \<Longrightarrow> sameTypes c1 c2 \<Longrightarrow> sameTypes c c2"
  by (simp add: sameTypes_def)

lemma sameTypes_getTypeNames: "sameTypes c (snd (getTypeNames c))"
  by (simp add: sameTypes_def getTypeNames_idem) (simp add: getTypeNames_def Let_def)

lemma sameTypes_fields:
  assumes "sameTypes c c1"
  shows "nedFiles c1 = nedFiles c" "packageDotNedFiles c1 = packageDotNedFiles c"
    "doneLoadingNedFilesCalled c1 = doneLoadingNedFilesCalled c" "nedTypes c1 = nedTypes c"
    "folderPackages c1 = folderPackages c" "pendingList c1 = pendingList c"
proof -
  have e: "c1\<lparr>nedTypeNames := []\<rparr> = c\<lparr>nedTypeNames := []\<rparr>"
    using assms by (simp add: sameTypes_def)
  show "nedFiles c1 = nedFiles c" using arg_cong [OF e, of nedFiles] by simp
  show "packageDotNedFiles c1 = packageDotNedFiles c" using arg_cong [OF e, of packageDotNedFiles] by simp
  show "doneLoadingNedFilesCalled c1 = doneLoadingNedFilesCalled c"
    using arg_cong [OF e, of doneLoadingNedFilesCalled] by simp
  show "nedTypes c1 = nedTypes c" using arg_cong [OF e, of nedTypes] by simp
  show "folderPackages c1 = folderPackages c" using arg_cong [OF e, of folderPackages] by simp
  show "pendingList c1 = pendingList c" using arg_cong [OF e, of pendingList] by simp
qed

lemma resolveNedTypeCached_same: "sameTypes c (snd (resolveNedTypeCached E ctx nm c))"
  by (simp add: resolveNedTypeCached_def sameTypes_refl sameTypes_getTypeNames)

lemma dependenciesLoop_same: "sameTypes c (snd (dependenciesLoop E ctx chs c))"
proof (induction chs arbitrary: c)
  case Nil
  show ?case by (simp add: sameTypes_refl)
next
  case (Cons child rest)
  show ?case
  proof (cases "tagCode child \<noteq> NED_EXTENDS \<and> tagCode child \<noteq> NED_INTERFACE_NAME")
    case True
    then show ?thesis using Cons.IH by simp
  next
    case False
    obtain r c1 where rc: "resolveNedTypeCached E ctx (getAttribute child ''name'') c = (r, c1)"
      by (cases "resolveNedTypeCached E ctx (getAttribute child ''name'') c")
    have s1: "sameTypes c c1"
      using resolveNedTypeCached_same [of c E ctx "getAttribute child ''name''"] rc by simp
    show ?thesis
      using False rc s1 sameTypes_trans [OF s1 Cons.IH [of c1]]
      by (cases r) auto
  qed
qed

lemma areDependenciesResolved_same: "sameTypes c (snd (areDependenciesResolved E qn nd c))"
  by (auto simp: areDependenciesResolved_def sameTypes_refl dependenciesLoop_same
      split: sum.splits list.splits)

lemma areDependenciesResolved_pendingList:
  "areDependenciesResolved E qn nd c = (r, c1) \<Longrightarrow> pendingList c1 = pendingList c"
  using areDependenciesResolved_same [of c E qn nd] by (simp add: sameTypes_fields)

definition eraseAt :: "nat \<Rightarrow> 'a list \<Rightarrow> 'a list" where
  "eraseAt i xs = take i xs @ drop (Suc i) xs"

lemma registerNedType_fields:
  "nedFiles (registerNedType qn inner nd c) = nedFiles c"
  "packageDotNedFiles (registerNedType qn inner nd c) = packageDotNedFiles c"
  "doneLoadingNedFilesCalled (registerNedType qn inner nd c) = doneLoadingNedFilesCalled c"
  "folderPackages (registerNedType qn inner nd c) = folderPackages c"
  "pendingList (registerNedType qn inner nd c) = pendingList c"
  "nedTypeNames (registerNedType qn inner nd c) = []"
  "nedTypes (registerNedType qn inner nd c) =
     map_assign qn \<lparr>ti_qname = qn, ti_isInnerType = inner, ti_node = nd\<rparr> (nedTypes c)"
  by (simp_all add: registerNedType_def Let_def)

lemma length_eraseAt: "i < length xs \<Longrightarrow> length (eraseAt i xs) = length xs - 1"
  by (simp add: eraseAt_def)

function scanPending :: "env \<Rightarrow> nat \<Rightarrow> bool \<Rightarrow> NedResourceCache \<Rightarrow> (error + bool) \<times> NedResourceCache" where
  "scanPending E i again c =
     (if i < length (pendingList c) then
        (let type = pendingList c ! i
         in case areDependenciesResolved E (p_qname type) (p_node type) c of
              (Inl e, c1) \<Rightarrow> (Inl e, c1)
            | (Inr False, c1) \<Rightarrow> scanPending E (Suc i) again c1
            | (Inr True, c1) \<Rightarrow>
                (case p_node type of
                   [] \<Rightarrow> (Inl NullDereference, c1)
                 | n # _ \<Rightarrow>
                     if lookup c1 (p_qname type) \<noteq> None
                     then (Inl (NedException (Some n)
                                 (''Redeclaration of '' @ getTagName n @ '' '' @ p_qname type)), c1)
                     else (let c2 = registerNedType (p_qname type) (p_isInnerType type) (p_node type) c1
                           in scanPending E i True (c2\<lparr>pendingList := eraseAt i (pendingList c2)\<rparr>))))
      else (Inr again, c))"
  by pat_completeness auto
termination
  by (relation "measure (\<lambda>(E, i, again, c). length (pendingList c) - i)")
     (auto simp: registerNedType_fields length_eraseAt dest!: areDependenciesResolved_pendingList [OF sym])


declare scanPending.simps [simp del]

lemma scanPending_again:
  "scanPending E i again c = (Inr a', c1) \<Longrightarrow>
     length (pendingList c1) \<le> length (pendingList c) \<and> (again \<longrightarrow> a') \<and>
     (a' \<and> \<not> again \<longrightarrow> length (pendingList c1) < length (pendingList c))"
proof (induction E i again c rule: scanPending.induct)
  case (1 E i again c)
  show ?case
  proof (cases "i < length (pendingList c)")
    case False
    then show ?thesis using "1.prems" by (simp add: scanPending.simps [of E i again c])
  next
    case True
    define t where "t = pendingList c ! i"
    obtain r c0 where ad: "areDependenciesResolved E (p_qname t) (p_node t) c = (r, c0)"
      by (cases "areDependenciesResolved E (p_qname t) (p_node t) c")
    have pl: "pendingList c0 = pendingList c"
      using ad by (rule areDependenciesResolved_pendingList)
    show ?thesis
    proof (cases r)
      case (Inl e)
      then show ?thesis
        using "1.prems" True ad by (simp add: scanPending.simps [of E i again c] t_def [symmetric])
    next
      case (Inr b)
      show ?thesis
      proof (cases b)
        case False
        have "scanPending E (Suc i) again c0 = (Inr a', c1)"
          using "1.prems" True ad Inr False
          by (simp add: scanPending.simps [of E i again c] t_def [symmetric])
        then show ?thesis
          using "1.IH"(2) [OF True t_def ad [symmetric] Inr] False pl by simp
      next
        case bt: True
        show ?thesis
        proof (cases "p_node t")
          case Nil
          then show ?thesis
            using "1.prems" True ad Inr bt
            by (simp add: scanPending.simps [of E i again c] t_def [symmetric])
        next
          case (Cons n ups)
          show ?thesis
          proof (cases "lookup c0 (p_qname t) \<noteq> None")
            case True
            then show ?thesis
              using "1.prems" \<open>i < length (pendingList c)\<close> ad Inr bt Cons
              by (simp add: scanPending.simps [of E i again c] t_def [symmetric])
          next
            case lk: False
            define c2 where "c2 = registerNedType (p_qname t) (p_isInnerType t) (p_node t) c0"
            have rec: "scanPending E i True (c2\<lparr>pendingList := eraseAt i (pendingList c2)\<rparr>) = (Inr a', c1)"
              using "1.prems" True ad Inr bt Cons lk
              by (simp add: scanPending.simps [of E i again c] t_def [symmetric] c2_def Let_def)
            have ih: "length (pendingList c1) \<le> length (eraseAt i (pendingList c2)) \<and> a'"
              using "1.IH"(1) [OF True t_def ad [symmetric] Inr eqTrueI [OF bt] Cons lk c2_def rec] by simp
            have "length (eraseAt i (pendingList c2)) < length (pendingList c)"
              using True pl by (simp add: c2_def registerNedType_fields length_eraseAt)
            then show ?thesis using ih by simp
          qed
        qed
      qed
    qed
  qed
qed

function registerLoop :: "env \<Rightarrow> NedResourceCache \<Rightarrow> (error + unit) \<times> NedResourceCache" where
  "registerLoop E c =
     (case scanPending E 0 False c of
        (Inl e, c1) \<Rightarrow> (Inl e, c1)
      | (Inr again, c1) \<Rightarrow> if again then registerLoop E c1 else (Inr (), c1))"
  by pat_completeness auto
termination
proof (relation "measure (\<lambda>(E, c). length (pendingList c))", goal_cases)
  case 1
  show ?case by simp
next
  case (2 E c x y b)
  have "scanPending E 0 False c = (Inr b, y)" using 2 by simp
  then show ?case using scanPending_again [of E 0 False c b y] 2 by simp
qed

declare registerLoop.simps [simp del]

definition quoted :: "string \<Rightarrow> string" where
  "quoted s = CHR 0x27 # s @ [CHR 0x27]"

definition elementOf :: "noderef \<Rightarrow> ast option" where
  "elementOf r = (case r of [] \<Rightarrow> None | n # _ \<Rightarrow> Some n)"

fun unresolvedNamesLoop :: "nat \<Rightarrow> PendingNedType list \<Rightarrow> string \<Rightarrow> string" where
  "unresolvedNamesLoop i [] unresolvedNames = unresolvedNames"
| "unresolvedNamesLoop i (t # ts) unresolvedNames =
     unresolvedNamesLoop (Suc i) ts (unresolvedNames @ (if i = 0 then [] else '', '') @ p_qname t)"

definition unresolvedError :: "PendingNedType list \<Rightarrow> error" where
  "unresolvedError pending =
     (let unresolvedNames = unresolvedNamesLoop 0 pending []
      in if length pending = 1
         then NedException (elementOf (p_node (pending ! 0)))
                (''NED type '' @ quoted unresolvedNames @
                 '' could not be fully resolved due to a missing base type or interface'')
         else NedException None
                (''The following NED types could not be fully resolved due to a missing base type or interface: '' @
                 unresolvedNames))"

definition registerPendingNedTypes :: "env \<Rightarrow> NedResourceCache \<Rightarrow> (error + unit) \<times> NedResourceCache" where
  "registerPendingNedTypes E c =
     (case registerLoop E c of
        (Inl e, c1) \<Rightarrow> (Inl e, c1)
      | (Inr u, c1) \<Rightarrow>
          if pendingList c1 \<noteq> [] then (Inl (unresolvedError (pendingList c1)), c1)
          else (Inr (), c1))"

subsection \<open>Source folders\<close>

text \<open>
  \<open>isPathPrefixOf\<close>: the assertion reads the last character of each string, the prefix
  first; on an empty string that is a read before its start. The lengths, C++
  \<^verbatim>\<open>int\<close>s, are taken below \<open>2^31\<close>.
\<close>

definition isPathPrefixOf :: "string \<Rightarrow> string \<Rightarrow> error + bool" where
  "isPathPrefixOf pfx path =
     (if pfx = [] then Inl OutOfBoundsRead
      else if last pfx = CHR ''/'' then Inl (AssertionFailure ''prefix[prefixlen-1] != '/' && path[pathlen-1] != '/' '')
      else if path = [] then Inl OutOfBoundsRead
      else if last path = CHR ''/'' then Inl (AssertionFailure ''prefix[prefixlen-1] != '/' && path[pathlen-1] != '/' '')
      else if length path = length pfx then Inr (path = pfx)
      else if length path < length pfx then Inr False
      else if take (length pfx) path \<noteq> pfx then Inr False
      else Inr (path ! length pfx = CHR ''/''))"

text \<open>The loop of \<open>getNedSourceFolderForFolder\<close> over the folder map.\<close>

fun sourceFolderLoop :: "string stdmap \<Rightarrow> string \<Rightarrow> error + string" where
  "sourceFolderLoop [] folderName = Inr []"
| "sourceFolderLoop (folderPackage # rest) folderName =
     (case isPathPrefixOf (fst folderPackage) folderName of
        Inl e \<Rightarrow> Inl e
      | Inr True \<Rightarrow> Inr (fst folderPackage)
      | Inr False \<Rightarrow> sourceFolderLoop rest folderName)"

definition getNedSourceFolderForFolder :: "env \<Rightarrow> NedResourceCache \<Rightarrow> string \<Rightarrow> error + string" where
  "getNedSourceFolderForFolder E c folder = sourceFolderLoop (folderPackages c) (canonicalize E folder)"

text \<open>
  \<open>getNedPackageForFolder\<close> reads the folder map with \<^verbatim>\<open>operator[]\<close> through a
  \<^verbatim>\<open>const_cast\<close>, which would add a missing key with an empty package; it returns the
  state for that reason. \<^verbatim>\<open>substr(pos)\<close> is \<open>drop pos\<close>: the source folder was found as a
  prefix of the folder name, so \<open>pos\<close> is within it.
\<close>

definition getNedPackageForFolder ::
  "env \<Rightarrow> string \<Rightarrow> NedResourceCache \<Rightarrow> (error + string) \<times> NedResourceCache" where
  "getNedPackageForFolder E folder c =
     (case getNedSourceFolderForFolder E c folder of
        Inl e \<Rightarrow> (Inl e, c)
      | Inr sourceFolder \<Rightarrow>
          if sourceFolder = [] then (Inr [], c)
          else
            (let folderName = canonicalize E folder;
                 suffix0 = drop (length sourceFolder) folderName;
                 suffix = (if length suffix0 > 0 \<and> hd suffix0 = CHR ''/'' then drop 1 suffix0 else suffix0);
                 subpackage = slashesToDots suffix;
                 c1 = (if containsKey (folderPackages c) sourceFolder then c
                       else c\<lparr>folderPackages := map_assign sourceFolder [] (folderPackages c)\<rparr>);
                 rootPackage = (case map_find (folderPackages c1) sourceFolder of Some pkg \<Rightarrow> pkg | None \<Rightarrow> [])
             in (Inr (opp_join ''.'' rootPackage subpackage), c1)))"

subsection \<open>Parsing and validation\<close>

definition containsError :: "ErrorStore \<Rightarrow> bool" where
  "containsError errors = list_ex (\<lambda>m. errorSeverityCode m = SEVERITY_ERROR) errors"

definition getFirstError :: "env \<Rightarrow> ErrorStore \<Rightarrow> string option \<Rightarrow> error + string" where
  "getFirstError E errors pfx =
     (case find (\<lambda>m. errorSeverityCode m = SEVERITY_ERROR) errors of
        None \<Rightarrow> Inl (AssertionFailure ''i != errors->numMessages()'')
      | Some m \<Rightarrow>
          (let message0 = errorText m;
               message1 = (case message0 of [] \<Rightarrow> [] | ch # rest \<Rightarrow> opp_toupper E ch # rest);
               location = errorLocation m;
               message2 = (if opp_stringbeginswith message1 ''Syntax error, unexpected''
                           then ''Syntax error'' else message1);
               message3 = (if location \<noteq> [] then message2 @ '', at '' @ location else message2)
           in Inr (case pfx of Some p \<Rightarrow> p @ message3 | None \<Rightarrow> message3)))"

text \<open>\<^verbatim>\<open>throw NedException("%s", getFirstError(&errors, prefix).c_str())\<close>\<close>

definition firstErrorException :: "env \<Rightarrow> ErrorStore \<Rightarrow> string option \<Rightarrow> error" where
  "firstErrorException E errors pfx =
     (case getFirstError E errors pfx of Inl e \<Rightarrow> e | Inr message \<Rightarrow> NedException None message)"

definition parseAndValidateNedFileOrText :: "env \<Rightarrow> string \<Rightarrow> string option \<Rightarrow> bool \<Rightarrow> error + ast" where
  "parseAndValidateNedFileOrText E fname nedText isXML =
     (if isXML \<and> nedText \<noteq> None
      then Inl (NedException None ''loadNedText(): Parsing XML from string not supported'')
      else
        (let (tree, errors) =
               (if isXML then parseXML E fname
                else (case nedText of Some txt \<Rightarrow> parseNedText E txt fname | None \<Rightarrow> parseNedFile E fname))
         in if containsError errors then Inl (firstErrorException E errors None)
            else
              (let errors2 = errors @ dtdValidate E tree
               in if containsError errors2
                  then Inl (firstErrorException E errors2 (Some ''NED internal DTD validation failure: ''))
                  else
                    (let errors3 = errors2 @ syntaxValidate E tree
                     in if containsError errors3 then Inl (firstErrorException E errors3 None)
                        else if tagCode tree \<noteq> NED_NED_FILE
                        then Inl (NedException None (''<ned-file> expected as root element, in file '' @ fname))
                        else Inr tree))))"

subsection \<open>Loading files\<close>

definition isPackageNedFile :: "string \<Rightarrow> bool" where
  "isPackageNedFile fname = (fname = ''package.ned'' \<or> opp_stringendswith fname ''/package.ned'')"

definition addFile :: "string \<Rightarrow> ast \<Rightarrow> NedResourceCache \<Rightarrow> (error + unit) \<times> NedResourceCache" where
  "addFile nedFilename nd c =
     (if containsKey (nedFiles c) nedFilename
      then (Inl (AssertionFailure ''!containsKey(nedFiles, std::string(nedFilename))''), c)
      else (Inr (), c\<lparr>nedFiles := map_assign nedFilename nd (nedFiles c)\<rparr>))"

definition isTypeTag :: "tag \<Rightarrow> bool" where
  "isTypeTag t = (t = NED_CHANNEL \<or> t = NED_CHANNEL_INTERFACE \<or> t = NED_SIMPLE_MODULE \<or>
                  t = NED_COMPOUND_MODULE \<or> t = NED_MODULE_INTERFACE)"

lemma find_size: "find P xs = Some y \<Longrightarrow> size y < Suc (size_list size xs)"
  by (induction xs) (auto split: if_splits)

lemma children_size: "size_list size (children n) < size n"
  by (cases n) simp

text \<open>
  The loop of \<open>collectNedTypesFrom\<close>: \<open>r\<close> points to the node whose children are visited,
  the list holds the children still to visit.
\<close>

function collectChildren ::
  "noderef \<Rightarrow> ast list \<Rightarrow> string \<Rightarrow> bool \<Rightarrow> NedResourceCache \<Rightarrow> NedResourceCache" where
  "collectChildren r [] packagePrefix areInnerTypes c = c"
| "collectChildren r (child # rest) packagePrefix areInnerTypes c =
     (if isTypeTag (tagCode child) then
        (let qname = packagePrefix @ getAttribute child ''name'';
             c1 = collectNedType qname areInnerTypes (child # r) c;
             c2 = (case getFirstChildWithTag child NED_TYPES of
                     Some types \<Rightarrow> collectChildren (types # child # r) (children types) (qname @ ''.'') True c1
                   | None \<Rightarrow> c1)
         in collectChildren r rest packagePrefix areInnerTypes c2)
      else collectChildren r rest packagePrefix areInnerTypes c)"
  by pat_completeness auto
termination
proof (relation "measure (\<lambda>(r, chs, pp, inner, c). size_list size chs)", goal_cases)
  case 1
  show ?case by simp
next
  case (2 r child rest packagePrefix areInnerTypes c x xa x2)
  have "size x2 < Suc (size_list size (children child))"
    using 2 by (auto simp: getFirstChildWithTag_def intro: find_size)
  then show ?case
    using children_size [of x2] children_size [of child] by simp
next
  case 3
  then show ?case by simp
next
  case 4
  then show ?case by simp
qed

definition collectNedTypesFrom ::
  "noderef \<Rightarrow> string \<Rightarrow> bool \<Rightarrow> NedResourceCache \<Rightarrow> error + NedResourceCache" where
  "collectNedTypesFrom r packagePrefix areInnerTypes c =
     (case r of
        [] \<Rightarrow> Inl NullDereference
      | n # _ \<Rightarrow> Inr (collectChildren r (children n) packagePrefix areInnerTypes c))"

definition declaredPackageOf :: "ast \<Rightarrow> string" where
  "declaredPackageOf tree =
     (case getFirstChildWithTag tree NED_PACKAGE of Some packageDecl \<Rightarrow> getName packageDecl | None \<Rightarrow> [])"

definition doLoadNedFileOrText ::
  "env \<Rightarrow> string option \<Rightarrow> string option \<Rightarrow> string option \<Rightarrow> bool \<Rightarrow> NedResourceCache \<Rightarrow>
     (error + unit) \<times> NedResourceCache" where
  "doLoadNedFileOrText E nedFilename nedText expectedPackage isXML c =
     (case nedFilename of
        None \<Rightarrow> (Inl (AssertionFailure ''nedFilename''), c)
      | Some fname \<Rightarrow>
          (let canonicalFilename = (if nedText \<noteq> None then fname else canonicalize E fname)
           in if containsKey (nedFiles c) canonicalFilename then (Inr (), c)
              else if doneLoadingNedFilesCalled c \<and> isPackageNedFile canonicalFilename
              then (Inl (NedException None
                      (''Cannot load '' @ canonicalFilename @ '': '' @ quoted ''package.ned'' @
                       '' files can no longer be loaded at this point'')), c)
              else
                (case parseAndValidateNedFileOrText E canonicalFilename nedText isXML of
                   Inl e \<Rightarrow> (Inl e, c)
                 | Inr tree \<Rightarrow>
                     (let declaredPackage = declaredPackageOf tree
                      in if expectedPackage \<noteq> None \<and> declaredPackage \<noteq> the expectedPackage
                         then (Inl (NedException None
                                 (''Declared package '' @ quoted declaredPackage @
                                  '' does not match expected package '' @ quoted (the expectedPackage) @
                                  '' in file '' @ fname)), c)
                         else
                           (case addFile canonicalFilename tree c of
                              (Inl e, c1) \<Rightarrow> (Inl e, c1)
                            | (Inr u, c1) \<Rightarrow>
                                if doneLoadingNedFilesCalled c1 then
                                  (let packagePrefix = (if declaredPackage = [] then [] else declaredPackage @ ''.'')
                                   in case collectNedTypesFrom [tree] packagePrefix False c1 of
                                        Inl e \<Rightarrow> (Inl e, c1)
                                      | Inr c2 \<Rightarrow> registerPendingNedTypes E c2)
                                else (Inr (), c1))))))"

definition loadNedFile ::
  "env \<Rightarrow> string option \<Rightarrow> string option \<Rightarrow> bool \<Rightarrow> NedResourceCache \<Rightarrow> (error + unit) \<times> NedResourceCache" where
  "loadNedFile E nedFilename expectedPackage isXML c =
     (if nedFilename = None then (Inl (NedException None ''loadNedFile(): File name is nullptr''), c)
      else doLoadNedFileOrText E nedFilename None expectedPackage isXML c)"

text \<open>The text is a C string, so it is present (not \<^verbatim>\<open>nullptr\<close>) in the model of \<open>loadNedText\<close>
  when it is \<open>Some\<close>; a null text makes the call a file load, as in the source.\<close>

definition loadNedText ::
  "env \<Rightarrow> string option \<Rightarrow> string option \<Rightarrow> string option \<Rightarrow> bool \<Rightarrow> NedResourceCache \<Rightarrow>
     (error + unit) \<times> NedResourceCache" where
  "loadNedText E name nedText expectedPackage isXML c =
     (if name = None then (Inl (NedException None ''loadNedText(): Name is nullptr''), c)
      else doLoadNedFileOrText E name nedText expectedPackage isXML c)"

subsection \<open>Loading source folders\<close>

text \<open>
  The walk of \<open>doLoadNedSourceFolder\<close>: its second argument is what \<open>folderName\<close> names in
  the working directory, the entries of a directory coming in the order of the globber;
  \<open>loadFolderEntries\<close> is its \<^verbatim>\<open>while\<close> loop. The file system is a finite tree, and the
  count, a C++ \<^verbatim>\<open>int\<close>, is taken below \<open>2^31\<close>.
\<close>

fun doLoadNedSourceFolder ::
  "env \<Rightarrow> fsnode option \<Rightarrow> string \<Rightarrow> string option \<Rightarrow> string list \<Rightarrow> NedResourceCache \<Rightarrow>
     (error + int) \<times> NedResourceCache"
and loadFolderEntries ::
  "env \<Rightarrow> (string \<times> fsnode) list \<Rightarrow> string option \<Rightarrow> string list \<Rightarrow> int \<Rightarrow> NedResourceCache \<Rightarrow>
     (error + int) \<times> NedResourceCache" where
  "doLoadNedSourceFolder E None folderName expectedPackage excludedPackages c =
     (if (case expectedPackage of None \<Rightarrow> False | Some p \<Rightarrow> p \<noteq> [] \<and> p \<in> set excludedPackages)
      then (Inr 0, c)
      else (Inl (NedException None (''Cannot enter directory '' @ folderName)), c))"
| "doLoadNedSourceFolder E (Some RegularFile) folderName expectedPackage excludedPackages c =
     (if (case expectedPackage of None \<Rightarrow> False | Some p \<Rightarrow> p \<noteq> [] \<and> p \<in> set excludedPackages)
      then (Inr 0, c)
      else (Inl (NedException None (''Cannot enter directory '' @ folderName)), c))"
| "doLoadNedSourceFolder E (Some (Directory entries)) folderName expectedPackage excludedPackages c =
     (if (case expectedPackage of None \<Rightarrow> False | Some p \<Rightarrow> p \<noteq> [] \<and> p \<in> set excludedPackages)
      then (Inr 0, c)
      else loadFolderEntries (pushDir E folderName) entries expectedPackage excludedPackages 0 c)"
| "loadFolderEntries E [] expectedPackage excludedPackages count c = (Inr count, c)"
| "loadFolderEntries E ((filename, RegularFile) # rest) expectedPackage excludedPackages count c =
     (if take 1 filename = ''.'' then loadFolderEntries E rest expectedPackage excludedPackages count c
      else if opp_stringendswith filename ''.ned'' then
        (case doLoadNedFileOrText E (Some filename) None expectedPackage False c of
           (Inl e, c1) \<Rightarrow> (Inl e, c1)
         | (Inr u, c1) \<Rightarrow> loadFolderEntries E rest expectedPackage excludedPackages (count + 1) c1)
      else loadFolderEntries E rest expectedPackage excludedPackages count c)"
| "loadFolderEntries E ((filename, Directory entries) # rest) expectedPackage excludedPackages count c =
     (if take 1 filename = ''.'' then loadFolderEntries E rest expectedPackage excludedPackages count c
      else
        (case doLoadNedSourceFolder E (Some (Directory entries)) filename
                (case expectedPackage of None \<Rightarrow> None | Some p \<Rightarrow> Some (opp_join ''.'' p filename))
                excludedPackages c of
           (Inl e, c1) \<Rightarrow> (Inl e, c1)
         | (Inr n, c1) \<Rightarrow> loadFolderEntries E rest expectedPackage excludedPackages (count + n) c1))"

definition determineRootPackageName :: "env \<Rightarrow> string \<Rightarrow> error + string" where
  "determineRootPackageName E nedSourceFolderName =
     (let packageNedFilename = nedSourceFolderName @ ''/package.ned''
      in if fileSystem E (canonicalize E packageNedFilename) = None then Inr []
         else (case parseAndValidateNedFileOrText E packageNedFilename None False of
                 Inl e \<Rightarrow> Inl e
               | Inr tree \<Rightarrow> Inr (declaredPackageOf tree)))"

text \<open>
  \<^verbatim>\<open>catch (std::exception& e)\<close>: \<open>NedException\<close> and the exception of \<open>Assert\<close> are caught
  and wrapped with their message; a null dereference or an out-of-bounds read is not an
  exception.
\<close>

definition what :: "error \<Rightarrow> string option" where
  "what e = (case e of NedException n message \<Rightarrow> Some message
                     | AssertionFailure message \<Rightarrow> Some message
                     | NullDereference \<Rightarrow> None
                     | OutOfBoundsRead \<Rightarrow> None)"

definition loadNedSourceFolder ::
  "env \<Rightarrow> string \<Rightarrow> string option \<Rightarrow> NedResourceCache \<Rightarrow> (error + int) \<times> NedResourceCache" where
  "loadNedSourceFolder E folderName excludedPackagesStr c =
     (let excludedPackages =
            filter (\<lambda>pkg. pkg \<noteq> [])
              (opp_splitandtrim E (case excludedPackagesStr of None \<Rightarrow> [] | Some s \<Rightarrow> s));
          canonicalFolderName = canonicalize E folderName;
          tried =
            (case determineRootPackageName E folderName of
               Inl e \<Rightarrow> (Inl e, c)
             | Inr rootPackageName \<Rightarrow>
                 doLoadNedSourceFolder E (fileSystem E canonicalFolderName) folderName (Some rootPackageName)
                   excludedPackages
                   (c\<lparr>folderPackages := map_assign canonicalFolderName rootPackageName (folderPackages c)\<rparr>))
      in case tried of
           (Inl e, c1) \<Rightarrow>
             (case what e of
                Some message \<Rightarrow>
                  (Inl (NedException None
                     (''Could not load NED sources from '' @ quoted folderName @ '': '' @ message)), c1)
              | None \<Rightarrow> (Inl e, c1))
         | (Inr n, c1) \<Rightarrow> (Inr n, c1))"

subsection \<open>Built-in declarations and the end of loading\<close>

definition registerBuiltinDeclarations :: "env \<Rightarrow> NedResourceCache \<Rightarrow> (error + unit) \<times> NedResourceCache" where
  "registerBuiltinDeclarations E c =
     (let (tree, errors) = parseNedText E (getBuiltInDeclarations E) ''built-in-declarations''
      in if containsError errors then (Inl (firstErrorException E errors None), c)
         else if tagCode tree \<noteq> NED_NED_FILE then (Inl (AssertionFailure ''nedFileElement''), c)
         else addFile ''/[built-in-declarations]/package.ned'' tree c)"

fun collectPackageNedFiles :: "ast stdmap \<Rightarrow> NedResourceCache \<Rightarrow> (error + unit) \<times> NedResourceCache" where
  "collectPackageNedFiles [] c = (Inr (), c)"
| "collectPackageNedFiles (entry # rest) c =
     (let nedFile = snd entry; fileName = getFilename nedFile
      in if isPackageNedFile fileName then
           (let packageName = declaredPackageOf nedFile
            in case map_find (packageDotNedFiles c) packageName of
                 Some other \<Rightarrow>
                   (Inl (NedException None
                      (''More than one package.ned file for package '' @ quoted packageName @
                       (if packageName = [] then '' (the default package)'' else []) @ '': '' @
                       quoted fileName @ '' and '' @ quoted (getFilename other))), c)
               | None \<Rightarrow>
                   collectPackageNedFiles rest
                     (c\<lparr>packageDotNedFiles := map_assign packageName nedFile (packageDotNedFiles c)\<rparr>))
         else collectPackageNedFiles rest c)"

fun collectFromFiles :: "ast stdmap \<Rightarrow> NedResourceCache \<Rightarrow> NedResourceCache" where
  "collectFromFiles [] c = c"
| "collectFromFiles (entry # rest) c =
     (let nedFile = snd entry;
          packagePrefix = (case getFirstChildWithTag nedFile NED_PACKAGE of
                             Some packageDecl \<Rightarrow> getName packageDecl @ ''.'' | None \<Rightarrow> [])
      in collectFromFiles rest (collectChildren [nedFile] (children nedFile) packagePrefix False c))"

definition doneLoadingNedFiles :: "env \<Rightarrow> NedResourceCache \<Rightarrow> (error + unit) \<times> NedResourceCache" where
  "doneLoadingNedFiles E c =
     (if doneLoadingNedFilesCalled c
      then (Inl (NedException None ''NedResourceCache::doneLoadingNedFiles() may only be called once''), c)
      else
        (let c1 = c\<lparr>doneLoadingNedFilesCalled := True\<rparr>
         in case collectPackageNedFiles (nedFiles c1) c1 of
              (Inl e, c2) \<Rightarrow> (Inl e, c2)
            | (Inr u, c2) \<Rightarrow> registerPendingNedTypes E (collectFromFiles (nedFiles c2) c2)))"

section \<open>Notions used in the properties\<close>

text \<open>The QNames registered in the type index, and those waiting in the pending list.\<close>

definition typeKeys :: "NedResourceCache \<Rightarrow> string set" where
  "typeKeys c = set (map_keys (nedTypes c))"

definition pendingNames :: "NedResourceCache \<Rightarrow> string set" where
  "pendingNames c = p_qname ` set (pendingList c)"

text \<open>No pending entry from index \<open>i\<close> on has its dependencies resolved.\<close>

definition unresolvedFrom :: "env \<Rightarrow> nat \<Rightarrow> NedResourceCache \<Rightarrow> bool" where
  "unresolvedFrom E i c =
     (\<forall>j. i \<le> j \<and> j < length (pendingList c) \<longrightarrow>
        fst (areDependenciesResolved E (p_qname (pendingList c ! j)) (p_node (pendingList c ! j)) c) = Inr False)"

text \<open>The cached listing, when asked for, is the key list of the type index.\<close>

definition typeNamesCoherent :: "NedResourceCache \<Rightarrow> bool" where
  "typeNamesCoherent c = (fst (getTypeNames c) = map_keys (nedTypes c))"

text \<open>
  What registration leaves alone: the file index, the package markers, the flag and the
  folder map are unchanged, the keys of the type index stay strictly ascending and the
  listing stays coherent.
\<close>

definition otherFieldsKept :: "NedResourceCache \<Rightarrow> NedResourceCache \<Rightarrow> bool" where
  "otherFieldsKept c c1 =
     (nedFiles c1 = nedFiles c \<and> packageDotNedFiles c1 = packageDotNedFiles c \<and>
      doneLoadingNedFilesCalled c1 = doneLoadingNedFilesCalled c \<and>
      folderPackages c1 = folderPackages c \<and> (map_ok (nedTypes c) \<longrightarrow> map_ok (nedTypes c1)) \<and>
      (typeNamesCoherent c \<longrightarrow> typeNamesCoherent c1))"



text \<open>
  The spec's words: a canonical path has no trailing slash, and \<open>isPathPrefix(prefix, path)\<close>
  is true iff \<open>path = prefix\<close> or \<open>path\<close> begins with \<open>prefix + "/"\<close>.
\<close>

definition canonicalPath :: "string \<Rightarrow> bool" where
  "canonicalPath s = (s \<noteq> [] \<and> last s \<noteq> CHR ''/'')"

definition isPathPrefix_spec :: "string \<Rightarrow> string \<Rightarrow> bool" where
  "isPathPrefix_spec pfx path = (path = pfx \<or> opp_stringbeginswith path (pfx @ ''/''))"

text \<open>The spec's words for the count: the \<open>.ned\<close> files of the walk, a subtree whose
  expected package is non-empty and excluded counting zero, dot entries being skipped.\<close>

fun countNedFiles :: "fsnode option \<Rightarrow> string option \<Rightarrow> string list \<Rightarrow> int"
and countNedEntries :: "(string \<times> fsnode) list \<Rightarrow> string option \<Rightarrow> string list \<Rightarrow> int" where
  "countNedFiles None expectedPackage excludedPackages = 0"
| "countNedFiles (Some RegularFile) expectedPackage excludedPackages = 0"
| "countNedFiles (Some (Directory entries)) expectedPackage excludedPackages =
     (if (case expectedPackage of None \<Rightarrow> False | Some p \<Rightarrow> p \<noteq> [] \<and> p \<in> set excludedPackages) then 0
      else countNedEntries entries expectedPackage excludedPackages)"
| "countNedEntries [] expectedPackage excludedPackages = 0"
| "countNedEntries ((filename, RegularFile) # rest) expectedPackage excludedPackages =
     (if take 1 filename \<noteq> ''.'' \<and> opp_stringendswith filename ''.ned'' then 1 else 0) +
     countNedEntries rest expectedPackage excludedPackages"
| "countNedEntries ((filename, Directory entries) # rest) expectedPackage excludedPackages =
     (if take 1 filename = ''.'' then 0
      else countNedFiles (Some (Directory entries))
             (case expectedPackage of None \<Rightarrow> None | Some p \<Rightarrow> Some (opp_join ''.'' p filename))
             excludedPackages) +
     countNedEntries rest expectedPackage excludedPackages"

text \<open>The excluded packages \<open>loadNedSourceFolder\<close> computes from its string argument.\<close>

definition excludedPackagesOf :: "env \<Rightarrow> string option \<Rightarrow> string list" where
  "excludedPackagesOf E excludedPackagesStr =
     filter (\<lambda>pkg. pkg \<noteq> []) (opp_splitandtrim E (case excludedPackagesStr of None \<Rightarrow> [] | Some s \<Rightarrow> s))"

section \<open>Example inputs\<close>

definition demoEnv :: env where
  "demoEnv = \<lparr>workingDirectory = ''/home'',
     tidyAbsolutePath = (\<lambda>cwd p. if take 1 p = ''/'' then p else cwd @ ''/'' @ p),
     fileSystem = (\<lambda>p. None),
     parseNedFile = (\<lambda>f. (ASTNode NED_NED_FILE [(''filename'', f)] [], [])),
     parseNedText = (\<lambda>t f. (ASTNode NED_NED_FILE [(''filename'', f)] [], [])),
     parseXML = (\<lambda>f. (ASTNode NED_NED_FILE [(''filename'', f)] [], [])),
     dtdValidate = (\<lambda>t. []), syntaxValidate = (\<lambda>t. []),
     getBuiltInDeclarations = [], opp_splitandtrim = (\<lambda>s. if s = [] then [] else [s]),
     opp_toupper = (\<lambda>ch. ch),
     containsWildcards = (\<lambda>s. CHR ''*'' \<in> set s), patternMatches = (\<lambda>p q. True)\<rparr>"

definition demoA :: ast where
  "demoA = ASTNode NED_SIMPLE_MODULE [(''name'', ''A'')] [ASTNode NED_EXTENDS [(''name'', ''B'')] []]"

definition demoB :: ast where
  "demoB = ASTNode NED_SIMPLE_MODULE [(''name'', ''B'')] []"

definition demoFile :: ast where
  "demoFile = ASTNode NED_NED_FILE [(''filename'', ''/r/p/AB.ned'')]
     [ASTNode NED_PACKAGE [(''name'', ''p'')] [], demoA, demoB]"

definition demoPending :: NedResourceCache where
  "demoPending = newCache\<lparr>pendingList :=
     [\<lparr>p_qname = ''p.A'', p_isInnerType = False, p_node = [demoA, demoFile]\<rparr>,
      \<lparr>p_qname = ''p.B'', p_isInnerType = False, p_node = [demoB, demoFile]\<rparr>]\<rparr>"

definition demoRedeclared :: NedResourceCache where
  "demoRedeclared = (registerNedType ''p.B'' False [demoB, demoFile] newCache)
     \<lparr>pendingList := [\<lparr>p_qname = ''p.B'', p_isInnerType = False, p_node = [demoB, demoFile]\<rparr>]\<rparr>"




definition demoFolders :: NedResourceCache where
  "demoFolders = newCache\<lparr>folderPackages := map_assign ''/r/b'' ''pb'' (map_assign ''/r/a'' ''pa'' [])\<rparr>"

definition demoLoaded :: NedResourceCache where
  "demoLoaded = snd (loadNedFile demoEnv (Some ''/r/M.ned'') None False newCache)"

definition demoPackageFile :: "string \<Rightarrow> string \<Rightarrow> ast" where
  "demoPackageFile f pkg = ASTNode NED_NED_FILE [(''filename'', f)]
     (if pkg = [] then [] else [ASTNode NED_PACKAGE [(''name'', pkg)] []])"

definition demoFsEnv :: env where
  "demoFsEnv = demoEnv\<lparr>
     fileSystem := (\<lambda>p.
       if p = ''/src'' then Some (Directory [(''a.ned'', RegularFile), (''.hidden.ned'', RegularFile),
            (''notes.txt'', RegularFile), (''sub'', Directory [(''b.ned'', RegularFile)]),
            (''excl'', Directory [(''c.ned'', RegularFile)])])
       else if p = ''/a'' then Some (Directory [(''b'', Directory [(''package.ned'', RegularFile)])])
       else if p = ''/a/b'' then Some (Directory [(''package.ned'', RegularFile)])
       else if p = ''/a/b/package.ned'' then Some RegularFile
       else if p = ''/bad'' then Some (Directory [(''M.ned'', RegularFile)])
       else None),
     parseNedFile := (\<lambda>f.
       (demoPackageFile f
          (if f = ''/src/sub/b.ned'' then ''sub''
           else if f = ''/a/b/package.ned'' then ''pb''
           else if f = ''/bad/M.ned'' then ''zzz'' else []), []))\<rparr>"


section \<open>Properties\<close>

lemma sameTypes_sym: "sameTypes c c1 \<Longrightarrow> sameTypes c1 c"
  by (simp add: sameTypes_def)

lemma sameTypes_oracle: "sameTypes c c1 \<Longrightarrow> CachedTypeNames c1 = CachedTypeNames c"
  by (simp add: CachedTypeNames_def lookup_def sameTypes_fields) (simp add: sameTypes_def)

lemma resolveNedTypeCached_sameTypes:
  assumes "sameTypes c c'"
  shows "fst (resolveNedTypeCached E ctx nm c') = fst (resolveNedTypeCached E ctx nm c)"
    and "sameTypes (snd (resolveNedTypeCached E ctx nm c)) (snd (resolveNedTypeCached E ctx nm c'))"
proof -
  have o: "CachedTypeNames c' = CachedTypeNames c" using assms by (rule sameTypes_oracle)
  show "fst (resolveNedTypeCached E ctx nm c') = fst (resolveNedTypeCached E ctx nm c)"
    by (simp add: resolveNedTypeCached_def o)
  have t: "sameTypes (snd (getTypeNames c)) (snd (getTypeNames c'))"
    using sameTypes_trans [OF sameTypes_sym [OF sameTypes_getTypeNames [of c]]
        sameTypes_trans [OF assms sameTypes_getTypeNames [of c']]] .
  show "sameTypes (snd (resolveNedTypeCached E ctx nm c)) (snd (resolveNedTypeCached E ctx nm c'))"
    using assms t by (simp add: resolveNedTypeCached_def o)
qed

lemma dependenciesLoop_sameTypes:
  "sameTypes c c' \<Longrightarrow>
     fst (dependenciesLoop E ctx chs c') = fst (dependenciesLoop E ctx chs c) \<and>
     sameTypes (snd (dependenciesLoop E ctx chs c)) (snd (dependenciesLoop E ctx chs c'))"
proof (induction chs arbitrary: c c')
  case Nil
  then show ?case by simp
next
  case (Cons child rest)
  show ?case
  proof (cases "tagCode child \<noteq> NED_EXTENDS \<and> tagCode child \<noteq> NED_INTERFACE_NAME")
    case True
    then show ?thesis using Cons.IH [OF Cons.prems] by simp
  next
    case False
    obtain r c1 where rc: "resolveNedTypeCached E ctx (getAttribute child ''name'') c = (r, c1)"
      by (cases "resolveNedTypeCached E ctx (getAttribute child ''name'') c")
    obtain r' c1' where rc': "resolveNedTypeCached E ctx (getAttribute child ''name'') c' = (r', c1')"
      by (cases "resolveNedTypeCached E ctx (getAttribute child ''name'') c'")
    have rr: "r' = r" and s1: "sameTypes c1 c1'"
      using resolveNedTypeCached_sameTypes [OF Cons.prems, of E ctx "getAttribute child ''name''"] rc rc'
      by simp_all
    show ?thesis
      using False rc rc' rr s1 Cons.IH [OF s1]
      by (cases r) auto
  qed
qed

lemma areDependenciesResolved_sameTypes:
  "sameTypes c c' \<Longrightarrow>
     fst (areDependenciesResolved E qn nd c') = fst (areDependenciesResolved E qn nd c)"
  by (auto simp: areDependenciesResolved_def dependenciesLoop_sameTypes
      split: sum.splits list.splits)

lemma set_map_assign: "fst ` set (map_assign k v m) = insert k (fst ` set m)"
proof (induction m)
  case Nil
  show ?case by simp
next
  case (Cons p m)
  obtain k' v' where p: "p = (k', v')" by (cases p)
  show ?case using Cons.IH by (simp add: p insert_commute)
qed

lemma set_eraseAt: "i < length xs \<Longrightarrow> insert (xs ! i) (set (eraseAt i xs)) = set xs"
proof -
  assume a: "i < length xs"
  have "xs = take i xs @ (xs ! i) # drop (Suc i) xs"
    using a by (simp add: id_take_nth_drop)
  then have "set xs = set (take i xs) \<union> insert (xs ! i) (set (drop (Suc i) xs))"
    by (metis set_append list.simps(15))
  then show ?thesis by (auto simp: eraseAt_def)
qed

lemma map_ok_map_assign: "map_ok m \<Longrightarrow> map_ok (map_assign k v m)"
proof (induction m)
  case Nil
  show ?case by (simp add: map_ok_def map_keys_def)
next
  case (Cons p m)
  obtain k' v' where p: "p = (k', v')" by (cases p)
  have ok: "map_ok m" and lt: "\<forall>x \<in> fst ` set m. k' < x"
    using Cons.prems by (auto simp: map_ok_def map_keys_def p)
  have ih: "sorted_wrt (<) (map fst (map_assign k v m))"
    using Cons.IH [OF ok] by (simp add: map_ok_def map_keys_def)
  have ks: "fst ` set (map_assign k v m) = insert k (fst ` set m)" by (rule set_map_assign)
  show ?case
  proof (cases "k < k'")
    case True
    then show ?thesis using Cons.prems lt by (auto simp: map_ok_def map_keys_def p)
  next
    case False
    show ?thesis
    proof (cases "k = k'")
      case True
      then show ?thesis using Cons.prems by (simp add: map_ok_def map_keys_def p)
    next
      case ne: False
      have "k' < k" using False ne by simp
      then show ?thesis using False ne ih lt ks by (simp add: map_ok_def map_keys_def p)
    qed
  qed
qed

lemma typeNamesCoherent_registerNedType: "typeNamesCoherent (registerNedType qn inner nd c)"
proof -
  have "map_assign qn v m \<noteq> []" for v :: NedTypeInfo and m
    by (cases m) (auto split: if_splits)
  then have "map_assign qn v (nedTypes c) \<noteq> []" for v
    by simp
  then show ?thesis
    by (simp add: typeNamesCoherent_def getTypeNames_def registerNedType_def map_keys_def Let_def)
qed

lemma typeNamesCoherent_pendingList:
  "typeNamesCoherent (c\<lparr>pendingList := pl\<rparr>) = typeNamesCoherent c"
  by (simp add: typeNamesCoherent_def getTypeNames_def Let_def)

lemma otherFieldsKept_refl: "otherFieldsKept c c"
  by (simp add: otherFieldsKept_def)

lemma otherFieldsKept_trans: "otherFieldsKept c c1 \<Longrightarrow> otherFieldsKept c1 c2 \<Longrightarrow> otherFieldsKept c c2"
  by (simp add: otherFieldsKept_def)

lemma sameTypes_otherFieldsKept: "sameTypes c c1 \<Longrightarrow> otherFieldsKept c c1"
  by (simp add: otherFieldsKept_def sameTypes_fields typeNamesCoherent_def) (simp add: sameTypes_def)

lemma unresolvedFrom_step:
  assumes st: "sameTypes c c0" and r: "fst (areDependenciesResolved E (p_qname (pendingList c ! i)) (p_node (pendingList c ! i)) c) = Inr False"
    and u: "unresolvedFrom E (Suc i) c0"
  shows "unresolvedFrom E i c"
  unfolding unresolvedFrom_def
proof (intro allI impI)
  fix j assume j: "i \<le> j \<and> j < length (pendingList c)"
  have pl: "pendingList c0 = pendingList c" using st by (rule sameTypes_fields)
  show "fst (areDependenciesResolved E (p_qname (pendingList c ! j)) (p_node (pendingList c ! j)) c) = Inr False"
  proof (cases "j = i")
    case True
    then show ?thesis using r by simp
  next
    case False
    then have "Suc i \<le> j \<and> j < length (pendingList c0)" using j pl by simp
    then have "fst (areDependenciesResolved E (p_qname (pendingList c ! j)) (p_node (pendingList c ! j)) c0) = Inr False"
      using u pl by (simp add: unresolvedFrom_def)
    then show ?thesis using areDependenciesResolved_sameTypes [OF st] by simp
  qed
qed

lemma scanPending_result:
  "scanPending E i again c = (r, c1) \<Longrightarrow>
     otherFieldsKept c c1 \<and> typeKeys c \<subseteq> typeKeys c1 \<and>
     (\<forall>a'. r = Inr a' \<longrightarrow>
        typeKeys c1 \<union> pendingNames c1 = typeKeys c \<union> pendingNames c \<and>
        (\<not> a' \<longrightarrow> sameTypes c c1 \<and> unresolvedFrom E i c))"
proof (induction E i again c rule: scanPending.induct)
  case (1 E i again c)
  show ?case
  proof (cases "i < length (pendingList c)")
    case False
    then have "r = Inr again" "c1 = c"
      using "1.prems" by (simp_all add: scanPending.simps [of E i again c])
    then show ?thesis
      using False by (auto simp add: otherFieldsKept_refl sameTypes_refl unresolvedFrom_def)
  next
    case True
    define t where "t = pendingList c ! i"
    obtain r0 c0 where ad: "areDependenciesResolved E (p_qname t) (p_node t) c = (r0, c0)"
      by (cases "areDependenciesResolved E (p_qname t) (p_node t) c")
    have st: "sameTypes c c0"
      using areDependenciesResolved_same [of c E "p_qname t" "p_node t"] ad by simp
    have pl: "pendingList c0 = pendingList c" and nt: "nedTypes c0 = nedTypes c"
      using st by (simp_all add: sameTypes_fields)
    have tk: "typeKeys c0 = typeKeys c" and pn: "pendingNames c0 = pendingNames c"
      using pl nt by (simp_all add: typeKeys_def pendingNames_def)
    have ok0: "otherFieldsKept c c0" using st by (rule sameTypes_otherFieldsKept)
    show ?thesis
    proof (cases r0)
      case (Inl e)
      then have "r = Inl e" "c1 = c0"
        using "1.prems" True ad by (simp_all add: scanPending.simps [of E i again c] t_def [symmetric])
      then show ?thesis using ok0 tk by simp
    next
      case (Inr b)
      show ?thesis
      proof (cases b)
        case False
        have rec: "scanPending E (Suc i) again c0 = (r, c1)"
          using "1.prems" True ad Inr False
          by (simp add: scanPending.simps [of E i again c] t_def [symmetric])
        have ih: "otherFieldsKept c0 c1 \<and> typeKeys c0 \<subseteq> typeKeys c1 \<and>
           (\<forall>a'. r = Inr a' \<longrightarrow>
              typeKeys c1 \<union> pendingNames c1 = typeKeys c0 \<union> pendingNames c0 \<and>
              (\<not> a' \<longrightarrow> sameTypes c0 c1 \<and> unresolvedFrom E (Suc i) c0))"
          using "1.IH"(2) [OF True t_def ad [symmetric] Inr] False rec by simp
        have r0F: "fst (areDependenciesResolved E (p_qname (pendingList c ! i)) (p_node (pendingList c ! i)) c) = Inr False"
          using ad Inr False by (simp add: t_def)
        have g1: "otherFieldsKept c c1"
          using otherFieldsKept_trans [OF ok0 conjunct1 [OF ih]] .
        have g2: "typeKeys c \<subseteq> typeKeys c1" using conjunct1 [OF conjunct2 [OF ih]] tk by simp
        have g3: "\<forall>a'. r = Inr a' \<longrightarrow>
            typeKeys c1 \<union> pendingNames c1 = typeKeys c \<union> pendingNames c"
          using ih tk pn by simp
        have g4: "\<forall>a'. r = Inr a' \<longrightarrow> \<not> a' \<longrightarrow> sameTypes c c1 \<and> unresolvedFrom E i c"
        proof (intro allI impI)
          fix a' assume ra: "r = Inr a'" and na: "\<not> a'"
          have s01: "sameTypes c0 c1" and u: "unresolvedFrom E (Suc i) c0"
            using ih ra na by blast+
          show "sameTypes c c1 \<and> unresolvedFrom E i c"
            using sameTypes_trans [OF st s01] unresolvedFrom_step [OF st r0F u] by simp
        qed
        show ?thesis using g1 g2 g3 g4 by blast
      next
        case bt: True
        show ?thesis
        proof (cases "p_node t")
          case Nil
          then have "r = Inl NullDereference" "c1 = c0"
            using "1.prems" True ad Inr bt
            by (simp_all add: scanPending.simps [of E i again c] t_def [symmetric])
          then show ?thesis using ok0 tk by simp
        next
          case (Cons n ups)
          show ?thesis
          proof (cases "lookup c0 (p_qname t) \<noteq> None")
            case True
            then have "\<exists>e. r = Inl e" "c1 = c0"
              using "1.prems" \<open>i < length (pendingList c)\<close> ad Inr bt Cons
              by (auto simp add: scanPending.simps [of E i again c] t_def [symmetric])
            then show ?thesis using ok0 tk by auto
          next
            case lk: False
            define c2 where "c2 = registerNedType (p_qname t) (p_isInnerType t) (p_node t) c0"
            define c3 where "c3 = c2\<lparr>pendingList := eraseAt i (pendingList c2)\<rparr>"
            have rec: "scanPending E i True c3 = (r, c1)"
              using "1.prems" True ad Inr bt Cons lk
              by (simp add: scanPending.simps [of E i again c] t_def [symmetric] c2_def c3_def Let_def)
            have ih: "otherFieldsKept c3 c1 \<and> typeKeys c3 \<subseteq> typeKeys c1 \<and>
               (\<forall>a'. r = Inr a' \<longrightarrow>
                  typeKeys c1 \<union> pendingNames c1 = typeKeys c3 \<union> pendingNames c3 \<and>
                  (\<not> a' \<longrightarrow> sameTypes c3 c1 \<and> unresolvedFrom E i c3))"
              using "1.IH"(1) [OF True t_def ad [symmetric] Inr eqTrueI [OF bt] Cons lk c2_def]
                rec by (simp add: c3_def)
            have a': "\<forall>a'. r = Inr a' \<longrightarrow> a'"
            proof (intro allI impI)
              fix a' assume "r = Inr a'"
              then have "scanPending E i True c3 = (Inr a', c1)" using rec by simp
              then show a' using scanPending_again [of E i True c3 a' c1] by simp
            qed
            have k3: "typeKeys c3 = insert (p_qname t) (typeKeys c)"
              using nt by (simp add: c3_def c2_def typeKeys_def map_keys_def registerNedType_fields set_map_assign)
            have "insert t (set (eraseAt i (pendingList c))) = set (pendingList c)"
              using set_eraseAt [OF True] by (simp add: t_def)
            then have "insert (p_qname t) (p_qname ` set (eraseAt i (pendingList c))) = p_qname ` set (pendingList c)"
              by (metis image_insert)
            then have p3: "insert (p_qname t) (pendingNames c3) = pendingNames c"
              using pl by (simp add: c3_def c2_def pendingNames_def registerNedType_fields)
            have ok3: "otherFieldsKept c0 c3"
              by (simp add: otherFieldsKept_def c3_def c2_def registerNedType_fields map_ok_map_assign
                  typeNamesCoherent_pendingList typeNamesCoherent_registerNedType)
            have ok: "otherFieldsKept c c1"
              using otherFieldsKept_trans [OF ok0 otherFieldsKept_trans [OF ok3 conjunct1 [OF ih]]] .
            have "typeKeys c3 \<subseteq> typeKeys c1" using conjunct1 [OF conjunct2 [OF ih]] .
            then have g2: "typeKeys c \<subseteq> typeKeys c1" using k3 by auto
            have g3: "\<forall>a'. r = Inr a' \<longrightarrow>
                typeKeys c1 \<union> pendingNames c1 = typeKeys c \<union> pendingNames c"
            proof (intro allI impI)
              fix a' assume ra: "r = Inr a'"
              have "typeKeys c1 \<union> pendingNames c1 = typeKeys c3 \<union> pendingNames c3"
                using ih ra by simp
              also have "\<dots> = typeKeys c \<union> insert (p_qname t) (pendingNames c3)"
                by (simp add: k3)
              finally show "typeKeys c1 \<union> pendingNames c1 = typeKeys c \<union> pendingNames c"
                by (simp add: p3)
            qed
            have g4: "\<forall>a'. r = Inr a' \<longrightarrow> \<not> a' \<longrightarrow> sameTypes c c1 \<and> unresolvedFrom E i c"
              using a' by blast
            show ?thesis using g2 g3 g4 ok by blast
          qed
        qed
      qed
    qed
  qed
qed

lemma unresolvedFrom_sameTypes:
  assumes st: "sameTypes c c1" and u: "unresolvedFrom E i c"
  shows "unresolvedFrom E i c1"
  unfolding unresolvedFrom_def
proof (intro allI impI)
  fix j assume j: "i \<le> j \<and> j < length (pendingList c1)"
  have pl: "pendingList c1 = pendingList c" using st by (rule sameTypes_fields)
  have "fst (areDependenciesResolved E (p_qname (pendingList c ! j)) (p_node (pendingList c ! j)) c) = Inr False"
    using u j pl by (simp add: unresolvedFrom_def)
  then show "fst (areDependenciesResolved E (p_qname (pendingList c1 ! j)) (p_node (pendingList c1 ! j)) c1) = Inr False"
    using areDependenciesResolved_sameTypes [OF st] pl by simp
qed

lemma registerLoop_result:
  "registerLoop E c = (r, c1) \<Longrightarrow>
     otherFieldsKept c c1 \<and> typeKeys c \<subseteq> typeKeys c1 \<and>
     (r = Inr () \<longrightarrow>
        typeKeys c1 \<union> pendingNames c1 = typeKeys c \<union> pendingNames c \<and> unresolvedFrom E 0 c1)"
proof (induction E c rule: registerLoop.induct)
  case (1 E c)
  obtain r0 c0 where sp: "scanPending E 0 False c = (r0, c0)"
    by (cases "scanPending E 0 False c")
  note res = scanPending_result [OF sp]
  have ok0: "otherFieldsKept c c0" using conjunct1 [OF res] .
  have sub0: "typeKeys c \<subseteq> typeKeys c0" using conjunct1 [OF conjunct2 [OF res]] .
  show ?case
  proof (cases r0)
    case (Inl e)
    then have "r = Inl e" "c1 = c0"
      using "1.prems" sp by (simp_all add: registerLoop.simps [of E c])
    then show ?thesis using ok0 sub0 by simp
  next
    case (Inr again)
    have keq: "typeKeys c0 \<union> pendingNames c0 = typeKeys c \<union> pendingNames c"
      using res Inr by blast
    show ?thesis
    proof (cases again)
      case True
      have rec: "registerLoop E c0 = (r, c1)"
        using "1.prems" sp Inr True by (simp add: registerLoop.simps [of E c])
      note ih = "1.IH" [OF sp [symmetric] Inr True rec]
      have g1: "otherFieldsKept c c1"
        using otherFieldsKept_trans [OF ok0 conjunct1 [OF ih]] .
      have g2: "typeKeys c \<subseteq> typeKeys c1"
        using sub0 conjunct1 [OF conjunct2 [OF ih]] by (rule subset_trans)
      have g3: "r = Inr () \<longrightarrow>
          typeKeys c1 \<union> pendingNames c1 = typeKeys c \<union> pendingNames c \<and> unresolvedFrom E 0 c1"
        using conjunct2 [OF conjunct2 [OF ih]] keq by simp
      show ?thesis using g1 g2 g3 by simp
    next
      case False
      have rc: "r = Inr ()" "c1 = c0"
        using "1.prems" sp Inr False by (simp_all add: registerLoop.simps [of E c])
      have "sameTypes c c0 \<and> unresolvedFrom E 0 c"
        using res Inr False by blast
      then have "unresolvedFrom E 0 c0"
        using unresolvedFrom_sameTypes by blast
      then show ?thesis using rc ok0 sub0 keq by simp
    qed
  qed
qed

lemma registerPendingNedTypes_kept:
  "registerPendingNedTypes E c = (r, c1) \<Longrightarrow> otherFieldsKept c c1 \<and> typeKeys c \<subseteq> typeKeys c1"
proof -
  assume a: "registerPendingNedTypes E c = (r, c1)"
  obtain r0 c0 where rl: "registerLoop E c = (r0, c0)" by (cases "registerLoop E c")
  have "c1 = c0" using a rl by (cases r0) (auto simp: registerPendingNedTypes_def split: if_splits)
  then show ?thesis
    using conjunct1 [OF registerLoop_result [OF rl]] conjunct1 [OF conjunct2 [OF registerLoop_result [OF rl]]]
    by simp
qed



lemma map_of_map_assign: "map_of (map_assign k v m) k' = (if k' = k then Some v else map_of m k')"
  by (induction m) auto

lemma map_ok_distinct: "map_ok m \<Longrightarrow> distinct (map_keys m)"
  by (simp add: map_ok_def strict_sorted_iff)

lemma scanPending_end:
  "\<not> i < length (pendingList c) \<Longrightarrow> scanPending E i again c = (Inr again, c)"
  by (simp add: scanPending.simps [of E i again c])

lemma scanPending_error:
  "i < length (pendingList c) \<Longrightarrow>
   areDependenciesResolved E (p_qname (pendingList c ! i)) (p_node (pendingList c ! i)) c = (Inl e, c1) \<Longrightarrow>
   scanPending E i again c = (Inl e, c1)"
  by (simp add: scanPending.simps [of E i again c])

lemma scanPending_unresolved:
  "i < length (pendingList c) \<Longrightarrow>
   areDependenciesResolved E (p_qname (pendingList c ! i)) (p_node (pendingList c ! i)) c = (Inr False, c1) \<Longrightarrow>
   scanPending E i again c = scanPending E (Suc i) again c1"
  by (simp add: scanPending.simps [of E i again c])

lemma scanPending_redeclared:
  "i < length (pendingList c) \<Longrightarrow>
   areDependenciesResolved E (p_qname (pendingList c ! i)) (p_node (pendingList c ! i)) c = (Inr True, c1) \<Longrightarrow>
   p_node (pendingList c ! i) = n # ups \<Longrightarrow> lookup c1 (p_qname (pendingList c ! i)) \<noteq> None \<Longrightarrow>
   scanPending E i again c =
     (Inl (NedException (Some n)
        (''Redeclaration of '' @ getTagName n @ '' '' @ p_qname (pendingList c ! i))), c1)"
  by (simp add: scanPending.simps [of E i again c])

lemma scanPending_promote:
  "i < length (pendingList c) \<Longrightarrow>
   areDependenciesResolved E (p_qname (pendingList c ! i)) (p_node (pendingList c ! i)) c = (Inr True, c1) \<Longrightarrow>
   p_node (pendingList c ! i) = n # ups \<Longrightarrow> lookup c1 (p_qname (pendingList c ! i)) = None \<Longrightarrow>
   scanPending E i again c =
     scanPending E i True
       ((registerNedType (p_qname (pendingList c ! i)) (p_isInnerType (pendingList c ! i))
           (p_node (pendingList c ! i)) c1)
        \<lparr>pendingList := eraseAt i (pendingList c1)\<rparr>)"
  by (simp add: scanPending.simps [of E i again c] Let_def registerNedType_fields)


lemmas demo_defs =
  registerPendingNedTypes_def registerLoop.simps scanPending.simps
  areDependenciesResolved_def getParentContextOf_def resolveNedTypeCached_def resolveNedType_def
  reachesEnumeration_def innerTypeStep_def exactImportStep_def samePackageStep_def getImports_def
  CachedTypeNames_def getTypeNames_def lookup_def map_find_def registerNedType_def eraseAt_def
  getParentWithTag_def getFirstChildWithTag_def getName_def getAttribute_def getImportSpec_def
  getTagName_def nameMatches_def opp_stringendswith_def
  hasDot_def beforeLastDot_def demoEnv_def demoA_def demoB_def demoFile_def demoPending_def newCache_def
  Let_def


lemma registerPendingNedTypes_unresolved_example:
  "fst (registerPendingNedTypes demoEnv (demoPending\<lparr>pendingList := [hd (pendingList demoPending)]\<rparr>)) =
     Inl (NedException (Some demoA)
       (''NED type '' @ [CHR 0x27] @ ''p.A'' @ [CHR 0x27] @
        '' could not be fully resolved due to a missing base type or interface''))"
  by (simp add: demo_defs unresolvedError_def quoted_def elementOf_def)

text \<open>
  C3. When the entry at index \<open>i\<close> has its dependencies resolved, the scan raises
  "Redeclaration of <tag> <qname>" if the QName is already a key of the type index;
  otherwise it registers the type: the index then maps the QName to the new entry, the
  other keys are as before, the cached listing is empty, and the keys stay strictly
  ascending, hence distinct. Registration as a whole keeps the keys distinct.
\<close>

theorem registerNedType_redeclaration:
  assumes "i < length (pendingList c)"
    and "t = pendingList c ! i"
    and "areDependenciesResolved E (p_qname t) (p_node t) c = (Inr True, c1)"
    and "p_node t = n # ups"
    and "c2 = registerNedType (p_qname t) (p_isInnerType t) (p_node t) c1"
  shows "(lookup c1 (p_qname t) \<noteq> None \<longrightarrow>
            scanPending E i again c =
              (Inl (NedException (Some n) (''Redeclaration of '' @ getTagName n @ '' '' @ p_qname t)), c1))
       \<and> (lookup c1 (p_qname t) = None \<longrightarrow>
            scanPending E i again c = scanPending E i True (c2\<lparr>pendingList := eraseAt i (pendingList c1)\<rparr>))
       \<and> lookup c2 (p_qname t) =
            Some \<lparr>ti_qname = p_qname t, ti_isInnerType = p_isInnerType t, ti_node = p_node t\<rparr>
       \<and> (\<forall>q. q \<noteq> p_qname t \<longrightarrow> lookup c2 q = lookup c1 q)
       \<and> nedTypeNames c2 = []
       \<and> (map_ok (nedTypes c1) \<longrightarrow> map_ok (nedTypes c2) \<and> distinct (map_keys (nedTypes c2)))
       \<and> (\<forall>r c'. registerPendingNedTypes E c = (r, c') \<longrightarrow> map_ok (nedTypes c) \<longrightarrow>
             distinct (map_keys (nedTypes c')))"
proof (intro conjI impI allI)
  assume "lookup c1 (p_qname t) \<noteq> None"
  then show "scanPending E i again c =
      (Inl (NedException (Some n) (''Redeclaration of '' @ getTagName n @ '' '' @ p_qname t)), c1)"
    using assms scanPending_redeclared [of i c E c1 n ups again] by simp
next
  assume "lookup c1 (p_qname t) = None"
  then show "scanPending E i again c = scanPending E i True (c2\<lparr>pendingList := eraseAt i (pendingList c1)\<rparr>)"
    using assms scanPending_promote [of i c E c1 n ups again] by simp
next
  show "lookup c2 (p_qname t) =
      Some \<lparr>ti_qname = p_qname t, ti_isInnerType = p_isInnerType t, ti_node = p_node t\<rparr>"
    by (simp add: assms(5) lookup_def map_find_def registerNedType_fields map_of_map_assign)
next
  fix q assume "q \<noteq> p_qname t"
  then show "lookup c2 q = lookup c1 q"
    by (simp add: assms(5) lookup_def map_find_def registerNedType_fields map_of_map_assign)
next
  show "nedTypeNames c2 = []" by (simp add: assms(5) registerNedType_fields)
next
  assume "map_ok (nedTypes c1)"
  then show "map_ok (nedTypes c2)"
    by (simp add: assms(5) registerNedType_fields map_ok_map_assign)
next
  assume "map_ok (nedTypes c1)"
  then have "map_ok (nedTypes c2)"
    by (simp add: assms(5) registerNedType_fields map_ok_map_assign)
  then show "distinct (map_keys (nedTypes c2))" by (rule map_ok_distinct)
next
  fix r c' assume a: "registerPendingNedTypes E c = (r, c')" and ok: "map_ok (nedTypes c)"
  have "otherFieldsKept c c'" using conjunct1 [OF registerPendingNedTypes_kept [OF a]] .
  then have "map_ok (nedTypes c')" using ok by (simp add: otherFieldsKept_def)
  then show "distinct (map_keys (nedTypes c'))" by (rule map_ok_distinct)
qed

theorem registerNedType_redeclaration_witness:
  "scanPending demoEnv 0 False demoRedeclared =
     (Inl (NedException (Some demoB) ''Redeclaration of simple-module p.B''), demoRedeclared)
   \<and> lookup (registerNedType ''p.B'' False [demoB, demoFile] demoRedeclared) ''p.B'' =
       Some \<lparr>ti_qname = ''p.B'', ti_isInnerType = False, ti_node = [demoB, demoFile]\<rparr>
   \<and> map_ok (nedTypes (registerNedType ''p.B'' False [demoB, demoFile] demoRedeclared))"
proof -
  have h1: "0 < length (pendingList demoRedeclared)" by (simp add: demoRedeclared_def)
  have h2: "\<lparr>p_qname = ''p.B'', p_isInnerType = False, p_node = [demoB, demoFile]\<rparr> = pendingList demoRedeclared ! 0"
    by (simp add: demoRedeclared_def)
  have h3: "areDependenciesResolved demoEnv
      (p_qname \<lparr>p_qname = ''p.B'', p_isInnerType = False, p_node = [demoB, demoFile]\<rparr>)
      (p_node \<lparr>p_qname = ''p.B'', p_isInnerType = False, p_node = [demoB, demoFile]\<rparr>) demoRedeclared =
      (Inr True, demoRedeclared)"
    by (simp add: areDependenciesResolved_def getParentContextOf_def demoB_def demoFile_def)
  have h4: "p_node \<lparr>p_qname = ''p.B'', p_isInnerType = False, p_node = [demoB, demoFile]\<rparr> = demoB # [demoFile]"
    by simp
  have h5: "registerNedType ''p.B'' False [demoB, demoFile] demoRedeclared =
      registerNedType (p_qname \<lparr>p_qname = ''p.B'', p_isInnerType = False, p_node = [demoB, demoFile]\<rparr>)
        (p_isInnerType \<lparr>p_qname = ''p.B'', p_isInnerType = False, p_node = [demoB, demoFile]\<rparr>)
        (p_node \<lparr>p_qname = ''p.B'', p_isInnerType = False, p_node = [demoB, demoFile]\<rparr>) demoRedeclared"
    by simp
  have lk: "lookup demoRedeclared ''p.B'' \<noteq> None"
    by (simp add: demoRedeclared_def registerNedType_def lookup_def map_find_def newCache_def)
  have ok: "map_ok (nedTypes demoRedeclared)"
    by (simp add: demoRedeclared_def registerNedType_def newCache_def map_ok_def map_keys_def)
  show ?thesis
    using registerNedType_redeclaration [OF h1 h2 h3 h4 h5, of False] lk ok
    by (simp add: getTagName_def demoB_def)
qed






lemma typeNamesCoherent_newCache: "typeNamesCoherent newCache"
  by (simp add: typeNamesCoherent_def getTypeNames_def newCache_def map_keys_def)







lemma take_eq_snoc_length:
  "take (Suc n) path = pfx @ [ch] \<Longrightarrow> length pfx = n \<Longrightarrow> n < length path"
proof -
  assume a: "take (Suc n) path = pfx @ [ch]" and b: "length pfx = n"
  have "length (take (Suc n) path) = Suc n" using a b by simp
  then show "n < length path" by simp
qed

lemma isPathPrefixOf_spec:
  assumes "canonicalPath pfx" and "canonicalPath path"
  shows "isPathPrefixOf pfx path = Inr (isPathPrefix_spec pfx path)"
proof -
  have n: "pfx \<noteq> []" "last pfx \<noteq> CHR ''/''" "path \<noteq> []" "last path \<noteq> CHR ''/''"
    using assms by (simp_all add: canonicalPath_def)
  have code: "isPathPrefixOf pfx path =
      (if length path = length pfx then Inr (path = pfx)
       else if length path < length pfx then Inr False
       else if take (length pfx) path \<noteq> pfx then Inr False
       else Inr (path ! length pfx = CHR ''/''))"
    using n by (simp add: isPathPrefixOf_def)
  have spec: "isPathPrefix_spec pfx path = (path = pfx \<or> take (Suc (length pfx)) path = pfx @ [CHR ''/''])"
    by (simp add: isPathPrefix_spec_def opp_stringbeginswith_def)
  show ?thesis
  proof (cases "length pfx < length path")
    case True
    have t: "take (Suc (length pfx)) path = take (length pfx) path @ [path ! length pfx]"
      using True by (simp add: take_Suc_conv_app_nth)
    have ne: "path \<noteq> pfx" using True by auto
    show ?thesis using True ne by (simp add: code spec t)
  next
    case False
    have "take (Suc (length pfx)) path \<noteq> pfx @ [CHR ''/'']"
      using take_eq_snoc_length [of "length pfx" path pfx "CHR ''/''"] False by blast
    moreover have "length path < length pfx \<Longrightarrow> path \<noteq> pfx" by auto
    ultimately show ?thesis using False by (auto simp add: code spec)
  qed
qed

lemma sourceFolderLoop_none:
  "(\<forall>k \<in> set (map_keys m). isPathPrefixOf k folderName = Inr False) \<Longrightarrow>
     sourceFolderLoop m folderName = Inr []"
  by (induction m) (auto simp: map_keys_def)

text \<open>
  C9. When no registered source folder is a path prefix of the canonical form of \<open>p\<close>
  (all of them canonical paths), \<open>getNedSourceFolderForFolder\<close> returns the empty string
  and \<open>getNedPackageForFolder\<close> returns the empty string and the cache as it was.
\<close>

theorem no_source_folder_empty:
  assumes "\<forall>k \<in> set (map_keys (folderPackages c)).
             canonicalPath k \<and> canonicalPath (canonicalize E p) \<and> \<not> isPathPrefix_spec k (canonicalize E p)"
  shows "getNedSourceFolderForFolder E c p = Inr [] \<and> getNedPackageForFolder E p c = (Inr [], c)"
proof -
  have "\<forall>k \<in> set (map_keys (folderPackages c)). isPathPrefixOf k (canonicalize E p) = Inr False"
    using assms by (simp add: isPathPrefixOf_spec)
  then have "getNedSourceFolderForFolder E c p = Inr []"
    unfolding getNedSourceFolderForFolder_def by (rule sourceFolderLoop_none)
  then show ?thesis by (simp add: getNedPackageForFolder_def)
qed

lemmas folder_defs =
  demoFolders_def newCache_def map_keys_def canonicalPath_def isPathPrefix_spec_def
  opp_stringbeginswith_def demoEnv_def

theorem no_source_folder_empty_witness:
  "getNedSourceFolderForFolder demoEnv demoFolders ''/r/abc'' = Inr [] \<and>
   getNedPackageForFolder demoEnv ''/r/abc'' demoFolders = (Inr [], demoFolders)"
proof -
  have "\<forall>k \<in> set (map_keys (folderPackages demoFolders)).
      canonicalPath k \<and> canonicalPath (canonicalize demoEnv ''/r/abc'') \<and>
      \<not> isPathPrefix_spec k (canonicalize demoEnv ''/r/abc'')"
    by (simp add: folder_defs canonicalize_def)
  then show ?thesis by (rule no_source_folder_empty)
qed




lemma collectChildren_pendingOnly:
  "\<exists>pl. collectChildren r chs pp inner c = c\<lparr>pendingList := pl\<rparr>"
proof (induction r chs pp inner c rule: collectChildren.induct)
  case (1 r packagePrefix areInnerTypes c)
  have "c = c\<lparr>pendingList := pendingList c\<rparr>" by simp
  then show ?case by (metis collectChildren.simps(1))
next
  case (2 r child rest packagePrefix areInnerTypes c)
  show ?case
  proof (cases "isTypeTag (tagCode child)")
    case False
    then show ?thesis using "2.IH"(3) by simp
  next
    case True
    define qn where "qn = packagePrefix @ getAttribute child ''name''"
    define c1 where "c1 = collectNedType qn areInnerTypes (child # r) c"
    define c2 where "c2 = (case getFirstChildWithTag child NED_TYPES of
                     Some types \<Rightarrow> collectChildren (types # child # r) (children types) (qn @ ''.'') True c1
                   | None \<Rightarrow> c1)"
    have e1: "\<exists>pl. c1 = c\<lparr>pendingList := pl\<rparr>"
      unfolding c1_def collectNedType_def by (rule exI, rule refl)
    have e2: "\<exists>pl. c2 = c1\<lparr>pendingList := pl\<rparr>"
    proof (cases "getFirstChildWithTag child NED_TYPES")
      case None
      have "c1 = c1\<lparr>pendingList := pendingList c1\<rparr>" by simp
      then show ?thesis using None unfolding c2_def by (metis option.simps(4))
    next
      case (Some types)
      show ?thesis
        using "2.IH"(1) [OF True qn_def c1_def Some] Some by (simp add: c2_def)
    qed
    have e3: "\<exists>pl. collectChildren r rest packagePrefix areInnerTypes c2 = c2\<lparr>pendingList := pl\<rparr>"
      using "2.IH"(2) [OF True qn_def c1_def c2_def] .
    have s: "collectChildren r (child # rest) packagePrefix areInnerTypes c =
        collectChildren r rest packagePrefix areInnerTypes c2"
      unfolding c2_def c1_def qn_def using True by (simp add: Let_def)
    obtain p1 where p1: "c1 = c\<lparr>pendingList := p1\<rparr>" using e1 by blast
    obtain p2 where p2: "c2 = c1\<lparr>pendingList := p2\<rparr>" using e2 by blast
    obtain p3 where p3: "collectChildren r rest packagePrefix areInnerTypes c2 = c2\<lparr>pendingList := p3\<rparr>"
      using e3 by blast
    have "collectChildren r (child # rest) packagePrefix areInnerTypes c = c2\<lparr>pendingList := p3\<rparr>"
      by (simp only: s p3)
    also have "c2\<lparr>pendingList := p3\<rparr> = c\<lparr>pendingList := p3\<rparr>"
      by (simp add: p2 p1)
    finally show ?thesis by blast
  qed
qed

lemma collectChildren_fields:
  "nedFiles (collectChildren r chs pp inner c) = nedFiles c"
  "folderPackages (collectChildren r chs pp inner c) = folderPackages c"
  "doneLoadingNedFilesCalled (collectChildren r chs pp inner c) = doneLoadingNedFilesCalled c"
  "nedTypes (collectChildren r chs pp inner c) = nedTypes c"
proof -
  obtain pl where "collectChildren r chs pp inner c = c\<lparr>pendingList := pl\<rparr>"
    using collectChildren_pendingOnly by blast
  then show "nedFiles (collectChildren r chs pp inner c) = nedFiles c"
    "folderPackages (collectChildren r chs pp inner c) = folderPackages c"
    "doneLoadingNedFilesCalled (collectChildren r chs pp inner c) = doneLoadingNedFilesCalled c"
    "nedTypes (collectChildren r chs pp inner c) = nedTypes c"
    by simp_all
qed

lemma registerPendingNedTypes_fields:
  assumes "registerPendingNedTypes E c = (r, c1)"
  shows "nedFiles c1 = nedFiles c" "folderPackages c1 = folderPackages c"
  using conjunct1 [OF registerPendingNedTypes_kept [OF assms]] by (simp_all add: otherFieldsKept_def)

lemma containsKey_map_assign: "containsKey (map_assign k v m) k' = (k' = k \<or> containsKey m k')"
  by (simp add: containsKey_def map_find_def map_of_map_assign)

lemma doLoadNedFileOrText_result:
  assumes "doLoadNedFileOrText E (Some fname) nedText ep isXML c = (r, c1)"
  shows "folderPackages c1 = folderPackages c"
    and "r = Inr () \<Longrightarrow> containsKey (nedFiles c1) (if nedText \<noteq> None then fname else canonicalize E fname)"
proof -
  define key where "key = (if nedText \<noteq> None then fname else canonicalize E fname)"
  have both: "folderPackages c1 = folderPackages c \<and> (r = Inr () \<longrightarrow> containsKey (nedFiles c1) key)"
  proof (cases "containsKey (nedFiles c) key")
    case True
    then have "r = Inr ()" "c1 = c"
      using assms by (simp_all add: doLoadNedFileOrText_def Let_def key_def)
    then show ?thesis using True by simp
  next
    case nk: False
    show ?thesis
    proof (cases "doneLoadingNedFilesCalled c \<and> isPackageNedFile key")
      case True
      then have "c1 = c" "r \<noteq> Inr ()"
        using assms nk by (auto simp add: doLoadNedFileOrText_def Let_def key_def)
      then show ?thesis by simp
    next
      case np: False
      show ?thesis
      proof (cases "parseAndValidateNedFileOrText E key nedText isXML")
        case (Inl e)
        then have "c1 = c" "r \<noteq> Inr ()"
          using assms nk np by (auto simp add: doLoadNedFileOrText_def Let_def key_def)
        then show ?thesis by simp
      next
        case (Inr tree)
        show ?thesis
        proof (cases "ep \<noteq> None \<and> declaredPackageOf tree \<noteq> the ep")
          case True
          then have "c1 = c" "r \<noteq> Inr ()"
            using assms nk np Inr by (auto simp add: doLoadNedFileOrText_def Let_def key_def)
          then show ?thesis by simp
        next
          case ok: False
          define ca where "ca = c\<lparr>nedFiles := map_assign key tree (nedFiles c)\<rparr>"
          have af: "addFile key tree c = (Inr (), ca)"
            using nk by (simp add: addFile_def ca_def)
          have ka: "containsKey (nedFiles ca) key" "folderPackages ca = folderPackages c"
            "doneLoadingNedFilesCalled ca = doneLoadingNedFilesCalled c"
            by (simp_all add: ca_def containsKey_map_assign)
          show ?thesis
          proof (cases "doneLoadingNedFilesCalled c")
            case False
            then have "r = Inr ()" "c1 = ca"
              using assms nk np Inr ok af ka(3)
              by (auto simp add: doLoadNedFileOrText_def Let_def key_def)
            then show ?thesis using ka by simp
          next
            case True
            define pp where "pp = (if declaredPackageOf tree = [] then [] else declaredPackageOf tree @ ''.'')"
            define cb where "cb = collectChildren [tree] (children tree) pp False ca"
            have rp: "registerPendingNedTypes E cb = (r, c1)"
              using assms nk np Inr ok af ka(3) True
              by (auto simp add: doLoadNedFileOrText_def Let_def key_def
                  collectNedTypesFrom_def pp_def cb_def)
            have "nedFiles c1 = nedFiles ca" "folderPackages c1 = folderPackages ca"
              using registerPendingNedTypes_fields [OF rp] by (simp_all add: cb_def collectChildren_fields)
            then show ?thesis using ka by simp
          qed
        qed
      qed
    qed
  qed
  show "folderPackages c1 = folderPackages c" using both by simp
  show "r = Inr () \<Longrightarrow> containsKey (nedFiles c1) (if nedText \<noteq> None then fname else canonicalize E fname)"
    using both by (simp add: key_def)
qed

text \<open>
  C2. When the key of a file (its canonical name, or the name as given for a text) is in
  the file index, \<open>doLoadNedFileOrText\<close> returns at once with the cache as it was, and so
  do \<open>loadNedFile\<close> and \<open>loadNedText\<close>; the folder walk counts the file and goes on with
  the cache as it was. After a load that returned normally the key is in the index, so
  a second load of the same file changes nothing.
\<close>

theorem doLoadNedFileOrText_idempotent:
  assumes "containsKey (nedFiles c) (if nedText \<noteq> None then fname else canonicalize E fname)
         \<or> (\<exists>c0 ep0 x0. doLoadNedFileOrText E (Some fname) nedText ep0 x0 c0 = (Inr (), c))"
  shows "doLoadNedFileOrText E (Some fname) nedText ep isXML c = (Inr (), c)
       \<and> loadNedText E (Some fname) nedText ep isXML c = (Inr (), c)
       \<and> (nedText = None \<longrightarrow> loadNedFile E (Some fname) ep isXML c = (Inr (), c))
       \<and> (nedText = None \<and> take 1 fname \<noteq> ''.'' \<and> opp_stringendswith fname ''.ned'' \<longrightarrow>
            loadFolderEntries E ((fname, RegularFile) # rest) ep excluded count c =
              loadFolderEntries E rest ep excluded (count + 1) c)"
proof -
  have k: "containsKey (nedFiles c) (if nedText \<noteq> None then fname else canonicalize E fname)"
    using assms doLoadNedFileOrText_result(2) by blast
  have d: "doLoadNedFileOrText E (Some fname) nedText ep isXML c = (Inr (), c)" for ep isXML
    using k by (simp add: doLoadNedFileOrText_def)
  show ?thesis
    using d by (auto simp add: loadNedText_def loadNedFile_def)
qed

lemmas load_defs =
  doLoadNedFileOrText_def loadNedFile_def loadNedText_def parseAndValidateNedFileOrText_def
  containsError_def addFile_def containsKey_def map_find_def declaredPackageOf_def
  getFirstChildWithTag_def getName_def getAttribute_def isPackageNedFile_def opp_stringendswith_def
  canonicalize_def pushDir_def quoted_def opp_join_def Let_def

theorem doLoadNedFileOrText_idempotent_witness:
  "loadNedFile demoEnv (Some ''/r/M.ned'') None False newCache = (Inr (), demoLoaded)
   \<and> containsKey (nedFiles demoLoaded) ''/r/M.ned''
   \<and> doLoadNedFileOrText demoEnv (Some ''/r/M.ned'') None (Some ''other'') False demoLoaded = (Inr (), demoLoaded)
   \<and> loadNedFile demoEnv (Some ''/r/M.ned'') (Some ''other'') False demoLoaded = (Inr (), demoLoaded)"
proof -
  have l: "loadNedFile demoEnv (Some ''/r/M.ned'') None False newCache = (Inr (), demoLoaded)"
    by (simp add: demoLoaded_def load_defs demoEnv_def newCache_def)
  have k: "containsKey (nedFiles demoLoaded) ''/r/M.ned''"
    by (simp add: demoLoaded_def load_defs demoEnv_def newCache_def)
  have h: "containsKey (nedFiles demoLoaded)
        (if (None :: string option) \<noteq> None then ''/r/M.ned'' else canonicalize demoEnv ''/r/M.ned'')
      \<or> (\<exists>c0 ep0 x0. doLoadNedFileOrText demoEnv (Some ''/r/M.ned'') None ep0 x0 c0 = (Inr (), demoLoaded))"
    using k by (simp add: canonicalize_def demoEnv_def)
  show ?thesis
    using doLoadNedFileOrText_idempotent [OF h, of "Some ''other''" False] l k by simp
qed

lemma walk_result:
  "(\<forall>n c1. doLoadNedSourceFolder E node folderName ep ex c = (r, c1) \<longrightarrow>
      folderPackages c1 = folderPackages c \<and> (r = Inr n \<longrightarrow> n = countNedFiles node ep ex))"
  "(\<forall>n c1. loadFolderEntries E entries ep ex count c = (r, c1) \<longrightarrow>
      folderPackages c1 = folderPackages c \<and> (r = Inr n \<longrightarrow> n = count + countNedEntries entries ep ex))"
proof (induction E node folderName ep ex c and E entries ep ex count c
    arbitrary: r and r rule: doLoadNedSourceFolder_loadFolderEntries.induct)
  case (1 E folderName expectedPackage excludedPackages c)
  show ?case by (auto split: if_splits)
next
  case (2 E folderName expectedPackage excludedPackages c)
  show ?case by (auto split: if_splits)
next
  case (3 E entries folderName expectedPackage excludedPackages c)
  show ?case
  proof (cases "case expectedPackage of None \<Rightarrow> False | Some p \<Rightarrow> p \<noteq> [] \<and> p \<in> set excludedPackages")
    case True
    then show ?thesis by auto
  next
    case False
    then show ?thesis using 3 [OF False, of r] by simp
  qed
next
  case (4 E expectedPackage excludedPackages count c)
  show ?case by auto
next
  case (5 E filename rest expectedPackage excludedPackages count c)
  show ?case
  proof (cases "take 1 filename = ''.''")
    case True
    then show ?thesis using 5(1) [OF True, of r] by simp
  next
    case nd: False
    show ?thesis
    proof (cases "opp_stringendswith filename ''.ned''")
      case False
      then show ?thesis using nd 5(3) [OF nd False, of r] by simp
    next
      case True
      obtain r0 c0 where dl: "doLoadNedFileOrText E (Some filename) None expectedPackage False c = (r0, c0)"
        by (cases "doLoadNedFileOrText E (Some filename) None expectedPackage False c")
      have fp0: "folderPackages c0 = folderPackages c"
        using doLoadNedFileOrText_result(1) [OF dl] .
      show ?thesis
      proof (cases r0)
        case (Inl e)
        then show ?thesis using nd True dl fp0 by auto
      next
        case (Inr u)
        have ih: "\<forall>n c1. loadFolderEntries E rest expectedPackage excludedPackages (count + 1) c0 = (r, c1) \<longrightarrow>
            folderPackages c1 = folderPackages c0 \<and>
            (r = Inr n \<longrightarrow> n = count + 1 + countNedEntries rest expectedPackage excludedPackages)"
          using 5(2) [OF nd True dl [symmetric] Inr, of r] .
        have step: "loadFolderEntries E ((filename, RegularFile) # rest) expectedPackage excludedPackages count c =
            loadFolderEntries E rest expectedPackage excludedPackages (count + 1) c0"
          using nd True dl Inr by simp
        have cnt: "countNedEntries ((filename, RegularFile) # rest) expectedPackage excludedPackages =
            1 + countNedEntries rest expectedPackage excludedPackages"
          using nd True by simp
        show ?thesis unfolding step cnt using ih fp0 by auto
      qed
    qed
  qed
next
  case (6 E filename entries rest expectedPackage excludedPackages count c)
  show ?case
  proof (cases "take 1 filename = ''.''")
    case True
    then show ?thesis using 6(1) [OF True, of r] by simp
  next
    case nd: False
    define ep' where "ep' = (case expectedPackage of None \<Rightarrow> None | Some p \<Rightarrow> Some (opp_join ''.'' p filename))"
    obtain r0 c0 where dl: "doLoadNedSourceFolder E (Some (Directory entries)) filename ep' excludedPackages c = (r0, c0)"
      by (cases "doLoadNedSourceFolder E (Some (Directory entries)) filename ep' excludedPackages c")
    have sub: "folderPackages c0 = folderPackages c \<and>
        (\<forall>n. r0 = Inr n \<longrightarrow> n = countNedFiles (Some (Directory entries)) ep' excludedPackages)"
      using 6(2) [OF nd, of r0] dl by (simp add: ep'_def)
    show ?thesis
    proof (cases r0)
      case (Inl e)
      then show ?thesis using nd dl sub by (auto simp add: ep'_def)
    next
      case (Inr m)
      have ih: "\<forall>n c1. loadFolderEntries E rest expectedPackage excludedPackages (count + m) c0 = (r, c1) \<longrightarrow>
          folderPackages c1 = folderPackages c0 \<and>
          (r = Inr n \<longrightarrow> n = count + m + countNedEntries rest expectedPackage excludedPackages)"
        using 6(3) [OF nd dl [unfolded ep'_def, symmetric] Inr, of r] .
      have m: "m = countNedFiles (Some (Directory entries)) ep' excludedPackages"
        using sub Inr by simp
      have step: "loadFolderEntries E ((filename, Directory entries) # rest) expectedPackage excludedPackages count c =
          loadFolderEntries E rest expectedPackage excludedPackages (count + m) c0"
        using nd dl Inr by (simp add: ep'_def)
      have cnt: "countNedEntries ((filename, Directory entries) # rest) expectedPackage excludedPackages =
          m + countNedEntries rest expectedPackage excludedPackages"
        using nd m by (simp add: ep'_def)
      show ?thesis unfolding step cnt using ih sub by auto
    qed
  qed
qed

lemma loadNedSourceFolder_cases:
  assumes "loadNedSourceFolder E folderName exs c = (r, c1)"
  shows "(\<exists>e. determineRootPackageName E folderName = Inl e \<and> c1 = c \<and> (\<exists>e'. r = Inl e'))
       \<or> (\<exists>root r0. determineRootPackageName E folderName = Inr root \<and>
             doLoadNedSourceFolder E (fileSystem E (canonicalize E folderName)) folderName (Some root)
               (excludedPackagesOf E exs)
               (c\<lparr>folderPackages := map_assign (canonicalize E folderName) root (folderPackages c)\<rparr>) = (r0, c1) \<and>
             (case r0 of Inr n \<Rightarrow> r = Inr n | Inl e \<Rightarrow> (\<exists>e'. r = Inl e')))"
proof (cases "determineRootPackageName E folderName")
  case (Inl e)
  then have "c1 = c \<and> (\<exists>e'. r = Inl e')"
    using assms by (auto simp add: loadNedSourceFolder_def Let_def split: option.splits)
  then show ?thesis using Inl by simp
next
  case (Inr root)
  obtain r0 c0 where w: "doLoadNedSourceFolder E (fileSystem E (canonicalize E folderName)) folderName (Some root)
               (excludedPackagesOf E exs)
               (c\<lparr>folderPackages := map_assign (canonicalize E folderName) root (folderPackages c)\<rparr>) = (r0, c0)"
    by (cases "doLoadNedSourceFolder E (fileSystem E (canonicalize E folderName)) folderName (Some root)
               (excludedPackagesOf E exs)
               (c\<lparr>folderPackages := map_assign (canonicalize E folderName) root (folderPackages c)\<rparr>)")
  have "c1 = c0 \<and> (case r0 of Inr n \<Rightarrow> r = Inr n | Inl e \<Rightarrow> (\<exists>e'. r = Inl e'))"
    using assms Inr w
    by (cases r0) (auto simp add: loadNedSourceFolder_def Let_def excludedPackagesOf_def split: option.splits)
  then show ?thesis using Inr w by simp
qed

text \<open>
  C7. The count \<open>loadNedSourceFolder\<close> returns is the number of \<open>.ned\<close> files of the walk:
  a directory whose expected package is non-empty and excluded counts zero with all
  below it, every other \<open>.ned\<close> file the walk meets counts one.
\<close>

theorem loadNedSourceFolder_count:
  assumes "loadNedSourceFolder E folderName exs c = (Inr n, c1)"
  shows "\<exists>root. determineRootPackageName E folderName = Inr root \<and>
           n = countNedFiles (fileSystem E (canonicalize E folderName)) (Some root) (excludedPackagesOf E exs)"
proof -
  from loadNedSourceFolder_cases [OF assms]
  obtain root r0 where d: "determineRootPackageName E folderName = Inr root"
    and w: "doLoadNedSourceFolder E (fileSystem E (canonicalize E folderName)) folderName (Some root)
               (excludedPackagesOf E exs)
               (c\<lparr>folderPackages := map_assign (canonicalize E folderName) root (folderPackages c)\<rparr>) = (r0, c1)"
    and r: "case r0 of Inr m \<Rightarrow> (Inr n :: error + int) = Inr m | Inl e \<Rightarrow> (\<exists>e'. (Inr n :: error + int) = Inl e')"
    by auto
  have "r0 = Inr n" using r by (cases r0) simp_all
  then have "n = countNedFiles (fileSystem E (canonicalize E folderName)) (Some root) (excludedPackagesOf E exs)"
    using walk_result(1) w by blast
  then show ?thesis using d by simp
qed

lemmas fs_defs =
  loadNedSourceFolder_def determineRootPackageName_def excludedPackagesOf_def doLoadNedFileOrText_def
  parseAndValidateNedFileOrText_def containsError_def addFile_def containsKey_def map_find_def
  declaredPackageOf_def getFirstChildWithTag_def getName_def getAttribute_def isPackageNedFile_def
  opp_stringendswith_def canonicalize_def pushDir_def quoted_def opp_join_def what_def
  demoFsEnv_def demoEnv_def demoPackageFile_def newCache_def Let_def

theorem loadNedSourceFolder_count_witness:
  "fst (loadNedSourceFolder demoFsEnv ''/src'' (Some ''excl'') newCache) = Inr 2
   \<and> countNedFiles (fileSystem demoFsEnv (canonicalize demoFsEnv ''/src'')) (Some [])
        (excludedPackagesOf demoFsEnv (Some ''excl'')) = 2"
proof -
  have e: "fst (loadNedSourceFolder demoFsEnv ''/src'' (Some ''excl'') newCache) = Inr 2"
    by (simp add: fs_defs)
  then have "loadNedSourceFolder demoFsEnv ''/src'' (Some ''excl'') newCache =
      (Inr 2, snd (loadNedSourceFolder demoFsEnv ''/src'' (Some ''excl'') newCache))"
    by (metis prod.collapse)
  from loadNedSourceFolder_count [OF this]
  have "\<exists>root. determineRootPackageName demoFsEnv ''/src'' = Inr root \<and>
      2 = countNedFiles (fileSystem demoFsEnv (canonicalize demoFsEnv ''/src'')) (Some root)
            (excludedPackagesOf demoFsEnv (Some ''excl''))" .
  moreover have "determineRootPackageName demoFsEnv ''/src'' = Inr []"
    by (simp add: fs_defs)
  ultimately show ?thesis using e by simp
qed

text \<open>
  C8. Once the root package of the folder is determined, \<open>loadNedSourceFolder\<close> stores it
  under the canonical folder name and then walks the folder; the walk never touches the
  folder map, so whether it returns or throws the final cache holds the mapping and the
  two folder queries answer from it.
\<close>

theorem loadNedSourceFolder_mapping_kept:
  assumes "determineRootPackageName E folderName = Inr root"
    and "loadNedSourceFolder E folderName exs c = (r, c1)"
  shows "folderPackages c1 = map_assign (canonicalize E folderName) root (folderPackages c)
       \<and> map_find (folderPackages c1) (canonicalize E folderName) = Some root
       \<and> getNedSourceFolderForFolder E c1 p =
           getNedSourceFolderForFolder E
             (c\<lparr>folderPackages := map_assign (canonicalize E folderName) root (folderPackages c)\<rparr>) p
       \<and> fst (getNedPackageForFolder E p c1) =
           fst (getNedPackageForFolder E p
             (c\<lparr>folderPackages := map_assign (canonicalize E folderName) root (folderPackages c)\<rparr>))"
proof -
  from loadNedSourceFolder_cases [OF assms(2)] assms(1)
  obtain r0 where w: "doLoadNedSourceFolder E (fileSystem E (canonicalize E folderName)) folderName (Some root)
               (excludedPackagesOf E exs)
               (c\<lparr>folderPackages := map_assign (canonicalize E folderName) root (folderPackages c)\<rparr>) = (r0, c1)"
    by auto
  have fp: "folderPackages c1 = map_assign (canonicalize E folderName) root (folderPackages c)"
    using walk_result(1) w by fastforce
  have mf: "map_find (folderPackages c1) (canonicalize E folderName) = Some root"
    by (simp add: fp map_find_def map_of_map_assign)
  show ?thesis
    using fp mf
    by (simp add: getNedSourceFolderForFolder_def getNedPackageForFolder_def containsKey_def Let_def
        split: sum.splits)
qed

theorem loadNedSourceFolder_mapping_kept_witness:
  "fst (loadNedSourceFolder demoFsEnv ''/bad'' None newCache) =
     Inl (NedException None
       (''Could not load NED sources from '' @ quoted ''/bad'' @ '': Declared package '' @ quoted ''zzz'' @
        '' does not match expected package '' @ quoted [] @ '' in file M.ned''))
   \<and> folderPackages (snd (loadNedSourceFolder demoFsEnv ''/bad'' None newCache)) = [(''/bad'', [])]
   \<and> getNedSourceFolderForFolder demoFsEnv (snd (loadNedSourceFolder demoFsEnv ''/bad'' None newCache)) ''/bad''
       = Inr ''/bad''"
proof -
  have h1: "determineRootPackageName demoFsEnv ''/bad'' = Inr []"
    by (simp add: fs_defs)
  have h2: "loadNedSourceFolder demoFsEnv ''/bad'' None newCache =
      (fst (loadNedSourceFolder demoFsEnv ''/bad'' None newCache),
       snd (loadNedSourceFolder demoFsEnv ''/bad'' None newCache))"
    by simp
  have e: "fst (loadNedSourceFolder demoFsEnv ''/bad'' None newCache) =
     Inl (NedException None
       (''Could not load NED sources from '' @ quoted ''/bad'' @ '': Declared package '' @ quoted ''zzz'' @
        '' does not match expected package '' @ quoted [] @ '' in file M.ned''))"
    by (simp add: fs_defs)
  have c: "canonicalize demoFsEnv ''/bad'' = ''/bad''" by (simp add: fs_defs)
  show ?thesis
    using loadNedSourceFolder_mapping_kept [OF h1 h2, of "''/bad''"] e
    by (simp add: c newCache_def getNedSourceFolderForFolder_def isPathPrefixOf_def)
qed

text \<open>
  C10. \<open>registerBuiltinDeclarations\<close> adds its file under a fixed key with \<open>addFile\<close>,
  whose assertion requires the key to be absent: after a call that returned, the key is
  present, and a second call on that cache fails the assertion, leaving the cache as it
  is. It is neither a no-op nor a \<open>NedException\<close>.
\<close>

theorem registerBuiltinDeclarations_twice:
  assumes "registerBuiltinDeclarations E c = (Inr (), c1)"
  shows "containsKey (nedFiles c1) ''/[built-in-declarations]/package.ned''
       \<and> \<not> containsKey (nedFiles c) ''/[built-in-declarations]/package.ned''
       \<and> registerBuiltinDeclarations E c1 =
           (Inl (AssertionFailure ''!containsKey(nedFiles, std::string(nedFilename))''), c1)"
proof -
  obtain tree errors where p: "parseNedText E (getBuiltInDeclarations E) ''built-in-declarations'' = (tree, errors)"
    by (cases "parseNedText E (getBuiltInDeclarations E) ''built-in-declarations''")
  have ne: "\<not> containsError errors" and t: "tagCode tree = NED_NED_FILE"
    and nk: "\<not> containsKey (nedFiles c) ''/[built-in-declarations]/package.ned''"
    using assms p by (auto simp add: registerBuiltinDeclarations_def addFile_def split: if_splits)
  have c1: "c1 = c\<lparr>nedFiles := map_assign ''/[built-in-declarations]/package.ned'' tree (nedFiles c)\<rparr>"
    using assms p ne t nk by (simp add: registerBuiltinDeclarations_def addFile_def)
  have k: "containsKey (nedFiles c1) ''/[built-in-declarations]/package.ned''"
    by (simp add: c1 containsKey_map_assign)
  have "registerBuiltinDeclarations E c1 =
      (Inl (AssertionFailure ''!containsKey(nedFiles, std::string(nedFilename))''), c1)"
    using p ne t k by (simp add: registerBuiltinDeclarations_def addFile_def)
  then show ?thesis using k nk by simp
qed

theorem registerBuiltinDeclarations_twice_witness:
  "fst (registerBuiltinDeclarations demoEnv newCache) = Inr ()
   \<and> registerBuiltinDeclarations demoEnv (snd (registerBuiltinDeclarations demoEnv newCache)) =
       (Inl (AssertionFailure ''!containsKey(nedFiles, std::string(nedFilename))''),
        snd (registerBuiltinDeclarations demoEnv newCache))"
proof -
  have e: "fst (registerBuiltinDeclarations demoEnv newCache) = Inr ()"
    by (simp add: registerBuiltinDeclarations_def addFile_def containsError_def containsKey_def
        map_find_def demoEnv_def newCache_def)
  then have "registerBuiltinDeclarations demoEnv newCache =
      (Inr (), snd (registerBuiltinDeclarations demoEnv newCache))"
    by (metis prod.collapse)
  from registerBuiltinDeclarations_twice [OF this] e show ?thesis by simp
qed


lemma registerPendingNedTypes_success:
  assumes "registerPendingNedTypes E c = (Inr (), c1)"
  shows "pendingList c1 = []" and "typeKeys c1 = typeKeys c \<union> pendingNames c"
proof -
  obtain r0 c0 where rl: "registerLoop E c = (r0, c0)" by (cases "registerLoop E c")
  have s: "r0 = Inr () \<and> c1 = c0 \<and> pendingList c0 = []"
    using assms rl by (cases r0) (auto simp: registerPendingNedTypes_def split: if_splits)
  then show "pendingList c1 = []" by simp
  have "typeKeys c0 \<union> pendingNames c0 = typeKeys c \<union> pendingNames c"
    using registerLoop_result [OF rl] s by simp
  then show "typeKeys c1 = typeKeys c \<union> pendingNames c"
    using s by (simp add: pendingNames_def)
qed

lemma collectPackageNedFiles_fields:
  "collectPackageNedFiles m c = (r, c2) \<Longrightarrow>
     doneLoadingNedFilesCalled c2 = doneLoadingNedFilesCalled c \<and> nedFiles c2 = nedFiles c \<and>
     nedTypes c2 = nedTypes c \<and> pendingList c2 = pendingList c \<and> folderPackages c2 = folderPackages c"
proof (induction m arbitrary: c)
  case Nil
  then show ?case by simp
next
  case (Cons entry rest)
  show ?case
  proof (cases "isPackageNedFile (getFilename (snd entry))")
    case False
    then show ?thesis using Cons.IH [of c] Cons.prems by (simp add: Let_def)
  next
    case True
    show ?thesis
    proof (cases "map_find (packageDotNedFiles c) (declaredPackageOf (snd entry))")
      case (Some other)
      then show ?thesis using True Cons.prems by (simp add: Let_def)
    next
      case None
      define ca where "ca = c\<lparr>packageDotNedFiles :=
          map_assign (declaredPackageOf (snd entry)) (snd entry) (packageDotNedFiles c)\<rparr>"
      have "collectPackageNedFiles rest ca = (r, c2)"
        using True None Cons.prems by (simp add: Let_def ca_def)
      then show ?thesis using Cons.IH [of ca] by (simp add: ca_def)
    qed
  qed
qed

text \<open>
  The end of loading: when \<open>doneLoadingNedFiles\<close> returns normally the pending list is
  empty, the flag is set, and every type collected from the loaded files is a key of the
  type index.
\<close>

lemma doneLoadingNedFiles_success:
  assumes "doneLoadingNedFiles E c = (Inr (), c1)"
  shows "pendingList c1 = [] \<and> \<not> doneLoadingNedFilesCalled c \<and> doneLoadingNedFilesCalled c1 \<and>
         (\<exists>c2. collectPackageNedFiles (nedFiles c) (c\<lparr>doneLoadingNedFilesCalled := True\<rparr>) = (Inr (), c2) \<and>
            typeKeys c1 = typeKeys c \<union> pendingNames (collectFromFiles (nedFiles c) c2))"
proof -
  have nd: "\<not> doneLoadingNedFilesCalled c"
    using assms by (auto simp: doneLoadingNedFiles_def)
  obtain r2 c2 where cp: "collectPackageNedFiles (nedFiles c) (c\<lparr>doneLoadingNedFilesCalled := True\<rparr>) = (r2, c2)"
    by (cases "collectPackageNedFiles (nedFiles c) (c\<lparr>doneLoadingNedFilesCalled := True\<rparr>)")
  have f2: "doneLoadingNedFilesCalled c2" "nedFiles c2 = nedFiles c" "nedTypes c2 = nedTypes c"
    using collectPackageNedFiles_fields [OF cp] by simp_all
  have r2: "r2 = Inr ()"
    using assms nd cp by (cases r2) (simp_all add: doneLoadingNedFiles_def Let_def)
  have rp: "registerPendingNedTypes E (collectFromFiles (nedFiles c) c2) = (Inr (), c1)"
    using assms nd cp r2 f2 by (simp add: doneLoadingNedFiles_def Let_def)
  have cf: "doneLoadingNedFilesCalled (collectFromFiles m c') = doneLoadingNedFilesCalled c' \<and>
      nedTypes (collectFromFiles m c') = nedTypes c'" for m c'
    by (induction m arbitrary: c') (simp_all add: Let_def collectChildren_fields)
  have k: "otherFieldsKept (collectFromFiles (nedFiles c) c2) c1"
    using conjunct1 [OF registerPendingNedTypes_kept [OF rp]] .
  have fl: "doneLoadingNedFilesCalled c1"
    using k cf [of "nedFiles c" c2] f2 by (simp add: otherFieldsKept_def)
  have tk: "typeKeys (collectFromFiles (nedFiles c) c2) = typeKeys c"
    using cf [of "nedFiles c" c2] f2 by (simp add: typeKeys_def)
  show ?thesis
    using registerPendingNedTypes_success [OF rp] nd fl cp r2 tk by simp
qed

end
